theory Spec2Isabelle
  imports Main
begin

section \<open>Values, objects and the store\<close>

text \<open>
  The module \<^verbatim>\<open>src/index.ts\<close> works on JavaScript objects by identity: it defines hidden
  properties on them, puts a Proxy in front of them and returns one or the other. The
  model therefore has an explicit store. An address names an object; a cell of the store
  is either a plain object (its own data properties, in insertion order) or a Proxy
  (its target and the options captured by the handler closures of \<^verbatim>\<open>observed\<close>).

  A function value is its identity \<open>VFun f\<close>. What a callback returns when it is called is
  given by a table \<open>F\<close> that every operation calling callbacks takes as a parameter: a
  callback is a function of its four arguments that returns a value. Callbacks that
  throw or that themselves mutate the store are not part of the model.

  The objects are the plain objects of the specification: own data properties that can
  be written, no accessors, nothing frozen, no properties found through the prototype.
  The keys are the strings and the two symbols of the module.
\<close>

type_synonym addr = nat
type_synonym fid = nat

datatype symbol = observedSymbol | observedCallbacksSymbol

datatype pkey = KStr string | KSym symbol

datatype Phase = Before | After

record CallbackRegistration =
  cb :: fid
  phase :: Phase

text \<open>
  \<open>VRegs\<close> is the array of registrations kept under \<open>observedCallbacksSymbol\<close>. It is a
  value without identity: the module replaces the array by a copy on every change
  (\<^verbatim>\<open>[...array]\<close>, \<^verbatim>\<open>filter\<close>), so the content under the symbol is all the module itself
  reads.
\<close>

datatype val =
    VUndefined
  | VNull
  | VBool bool
  | VNum int
  | VStr string
  | VFun fid
  | VRef addr
  | VRegs "CallbackRegistration list"

record ObserveOptions =
  deep :: "val option"
  onBeforeSet :: "val option"
  onSet_opt :: "val option"
  onGet :: "val option"

text \<open>A field of \<open>ObserveOptions\<close> is \<open>None\<close> when the options object has no such key.
  The field \<open>onSet_opt\<close> is the key \<^verbatim>\<open>onSet\<close> of the options; the name \<open>onSet\<close> is kept for the
  exported function.\<close>

definition defaultOptions :: ObserveOptions where
  "defaultOptions = \<lparr>deep = Some (VBool True), onBeforeSet = None, onSet_opt = None, onGet = None\<rparr>"

text \<open>The object spread \<^verbatim>\<open>{ ...a, ...b }\<close>: a key of \<open>b\<close> wins over the same key of \<open>a\<close>.\<close>

definition spread :: "ObserveOptions \<Rightarrow> ObserveOptions \<Rightarrow> ObserveOptions" where
  "spread a b =
     \<lparr>deep = (case deep b of None \<Rightarrow> deep a | Some v \<Rightarrow> Some v),
      onBeforeSet = (case onBeforeSet b of None \<Rightarrow> onBeforeSet a | Some v \<Rightarrow> Some v),
      onSet_opt = (case onSet_opt b of None \<Rightarrow> onSet_opt a | Some v \<Rightarrow> Some v),
      onGet = (case onGet b of None \<Rightarrow> onGet a | Some v \<Rightarrow> Some v)\<rparr>"

type_synonym props = "(pkey \<times> val) list"

datatype cell = Obj props | Proxy addr ObserveOptions

datatype event =
    Called fid pkey val val val
  | Written addr pkey val

text \<open>
  \<open>Called f k v w r\<close>: the callback \<open>f\<close> was called with the arguments \<open>(k, v, w, r)\<close>.
  \<open>Written a k v\<close>: the value \<open>v\<close> was stored under the key \<open>k\<close> of the plain object \<open>a\<close>
  by an assignment. The trace lists the events in the order in which they happened.
\<close>

record state =
  heap :: "cell list"
  trace :: "event list"

datatype error =
    CallbackIsNotAFunction
  | CallbackIsNotRegistered
  | TypeError
  | NoSuchObject
  | Unsupported

text \<open>
  \<open>CallbackIsNotAFunction\<close> is \<^verbatim>\<open>Error('callback must be a function')\<close> and
  \<open>CallbackIsNotRegistered\<close> is \<^verbatim>\<open>Error('callback is not registered')\<close>. \<open>TypeError\<close> is the
  one the runtime raises. \<open>NoSuchObject\<close> marks an address outside the store or a Proxy
  that is not younger than its target, which no JavaScript program can produce.
  \<open>Unsupported\<close> marks the places where a registry array is used as an ordinary
  object, or an ordinary object as a registry array, which the model does not follow.
\<close>

datatype 'a result = OutOfFuel | Throw error state | Ok 'a state

text \<open>Sequencing: the second step runs on the value and the state of the first, unless
  that one threw or did not return.\<close>

definition andThen :: "'a result \<Rightarrow> ('a \<Rightarrow> state \<Rightarrow> 'b result) \<Rightarrow> 'b result" where
  "andThen r f = (case r of OutOfFuel \<Rightarrow> OutOfFuel | Throw e st \<Rightarrow> Throw e st | Ok x st \<Rightarrow> f x st)"

definition cellAt :: "state \<Rightarrow> addr \<Rightarrow> cell option" where
  "cellAt st a = (if a < length (heap st) then Some (heap st ! a) else None)"

definition log :: "event \<Rightarrow> state \<Rightarrow> state" where
  "log e st = st\<lparr>trace := trace st @ [e]\<rparr>"

definition propGet :: "props \<Rightarrow> pkey \<Rightarrow> val" where
  "propGet ps k = (case map_of ps k of None \<Rightarrow> VUndefined | Some v \<Rightarrow> v)"

text \<open>Storing a property keeps the position of an existing key and appends a new one.\<close>

fun propSet :: "props \<Rightarrow> pkey \<Rightarrow> val \<Rightarrow> props" where
  "propSet [] k v = [(k, v)]"
| "propSet ((k', v') # ps) k v = (if k' = k then (k, v) # ps else (k', v') # propSet ps k v)"

text \<open>\<^verbatim>\<open>typeof v === 'function'\<close> and the truthiness of a value (\<^verbatim>\<open>!v\<close> negates it).\<close>

fun isFunction :: "val \<Rightarrow> bool" where
  "isFunction (VFun f) = True"
| "isFunction v = False"

fun truthy :: "val \<Rightarrow> bool" where
  "truthy VUndefined = False"
| "truthy VNull = False"
| "truthy (VBool b) = b"
| "truthy (VNum i) = (i \<noteq> 0)"
| "truthy (VStr s) = (s \<noteq> [])"
| "truthy (VFun f) = True"
| "truthy (VRef a) = True"
| "truthy (VRegs rs) = True"

section \<open>Property access of the runtime\<close>

text \<open>
  \<^verbatim>\<open>typeof options.onGet === 'function'\<close>, then \<^verbatim>\<open>options.onGet(propertyKey, value, target, receiver)\<close>
  as a statement: the result of the call is dropped, so only the call is recorded.
\<close>

definition callOnGet :: "ObserveOptions \<Rightarrow> pkey \<Rightarrow> val \<Rightarrow> addr \<Rightarrow> addr \<Rightarrow> state \<Rightarrow> unit result" where
  "callOnGet options propertyKey value target receiver st =
     (case onGet options of
        Some (VFun f) \<Rightarrow> Ok () (log (Called f propertyKey value (VRef target) (VRef receiver)) st)
      | _ \<Rightarrow> Ok () st)"

text \<open>
  \<open>js_get st a k receiver\<close> is the internal method \<^verbatim>\<open>[[Get]]\<close> of the object \<open>a\<close>, that is
  \<^verbatim>\<open>Reflect.get(a, k, receiver)\<close>; the expression \<^verbatim>\<open>a[k]\<close> is \<open>js_get st a k a\<close>. On a Proxy it
  runs the \<^verbatim>\<open>get\<close> handler that \<^verbatim>\<open>observed\<close> installs:
  \<^verbatim>\<open>
      get: (target, propertyKey, receiver) => {
        const value = Reflect.get(target, propertyKey, receiver)
        if (typeof options.onGet === 'function') {
          options.onGet(propertyKey, value, target, receiver)
        }
        return value
      },
  \<close>
  A Proxy is created after its target, hence at a larger address; the recursion follows
  the chain of targets downwards.
\<close>

function js_get :: "state \<Rightarrow> addr \<Rightarrow> pkey \<Rightarrow> addr \<Rightarrow> val result" where
  "js_get st a k receiver =
     (case cellAt st a of
        None \<Rightarrow> Throw NoSuchObject st
      | Some (Obj ps) \<Rightarrow> Ok (propGet ps k) st
      | Some (Proxy target options) \<Rightarrow>
          if target < a then
            andThen (js_get st target k receiver) (\<lambda>value st1.
            andThen (callOnGet options k value target receiver st1) (\<lambda>u st2.
            Ok value st2))
          else Throw NoSuchObject st)"
  by pat_completeness auto
termination
  by (relation "measure (\<lambda>(st, a, k, receiver). a)") auto

declare js_get.simps [simp del]

text \<open>
  The handler object has no other trap than \<^verbatim>\<open>get\<close> and \<^verbatim>\<open>set\<close>: \<^verbatim>\<open>Object.keys\<close> and
  \<^verbatim>\<open>Object.defineProperty\<close> on a Proxy act on the plain object at the end of its chain
  of targets, and call no handler.
\<close>

function resolve :: "cell list \<Rightarrow> addr \<Rightarrow> addr option" where
  "resolve h a =
     (if a < length h then
        (case h ! a of
           Obj ps \<Rightarrow> Some a
         | Proxy target options \<Rightarrow> if target < a then resolve h target else None)
      else None)"
  by pat_completeness auto
termination
  by (relation "measure (\<lambda>(h, a). a)") auto

declare resolve.simps [simp del]

text \<open>\<^verbatim>\<open>Object.keys\<close>: the own enumerable string keys, in the order of their creation (the
  runtime lists keys that are array indices first; no statement below depends on the
  order). A symbol is never among them.\<close>

fun stringKeys :: "props \<Rightarrow> string list" where
  "stringKeys [] = []"
| "stringKeys ((KStr s, v) # ps) = s # stringKeys ps"
| "stringKeys ((KSym y, v) # ps) = stringKeys ps"

definition objectKeys :: "state \<Rightarrow> addr \<Rightarrow> string list result" where
  "objectKeys st a =
     (case resolve (heap st) a of
        None \<Rightarrow> Throw NoSuchObject st
      | Some b \<Rightarrow>
          (case heap st ! b of
             Obj ps \<Rightarrow> Ok (stringKeys ps) st
           | Proxy t opts \<Rightarrow> Throw NoSuchObject st))"

text \<open>Storing an own data property of the plain object \<open>b\<close>.\<close>

definition setOwn :: "state \<Rightarrow> addr \<Rightarrow> pkey \<Rightarrow> val \<Rightarrow> state" where
  "setOwn st b k v =
     (case heap st ! b of
        Obj ps \<Rightarrow> st\<lparr>heap := (heap st)[b := Obj (propSet ps k v)]\<rparr>
      | Proxy t opts \<Rightarrow> st)"

text \<open>\<^verbatim>\<open>new Proxy(object, handler)\<close>: a new cell, at the next free address.\<close>

definition newProxy :: "state \<Rightarrow> addr \<Rightarrow> ObserveOptions \<Rightarrow> addr result" where
  "newProxy st target options = Ok (length (heap st)) (st\<lparr>heap := heap st @ [Proxy target options]\<rparr>)"

section \<open>The module\<close>

text \<open>
  \<^verbatim>\<open>
  export const defineProp = (object, prop, value) => {
    Object.defineProperty(object, prop, {
      enumerable: false, value, writable: true, configurable: false })
  }
  \<close>
  The module calls it with its two symbols only. The property stays writable, so a
  second call on the same symbol replaces the value.
\<close>

definition defineProp :: "state \<Rightarrow> addr \<Rightarrow> symbol \<Rightarrow> val \<Rightarrow> unit result" where
  "defineProp st object prop value =
     (case resolve (heap st) object of
        None \<Rightarrow> Throw NoSuchObject st
      | Some b \<Rightarrow> Ok () (setOwn st b (KSym prop) value))"

text \<open>
  \<^verbatim>\<open>
  export const initCallbackArray = (object) => {
    if (!object[observedCallbacksSymbol]) {
      defineProp(object, observedCallbacksSymbol, [])
    }
  }
  \<close>
\<close>

definition initCallbackArray :: "state \<Rightarrow> addr \<Rightarrow> unit result" where
  "initCallbackArray st object =
     andThen (js_get st object (KSym observedCallbacksSymbol) object) (\<lambda>v st1.
       if \<not> truthy v then defineProp st1 object observedCallbacksSymbol (VRegs [])
       else Ok () st1)"

text \<open>\<^verbatim>\<open>export const isObserved = (object) => !!object[observedSymbol]\<close>\<close>

definition isObserved :: "state \<Rightarrow> addr \<Rightarrow> bool result" where
  "isObserved st object =
     andThen (js_get st object (KSym observedSymbol) object) (\<lambda>v st1. Ok (truthy v) st1)"

text \<open>\<^verbatim>\<open>export const getObservers = (object) => object[observedCallbacksSymbol]\<close>\<close>

definition getObservers :: "state \<Rightarrow> addr \<Rightarrow> val result" where
  "getObservers st object = js_get st object (KSym observedCallbacksSymbol) object"

text \<open>
  \<^verbatim>\<open>object[observedCallbacksSymbol].push(registration)\<close>: the read of the symbol, then
  \<^verbatim>\<open>push\<close>, which changes the array under the symbol in place, so that the next read of
  the symbol sees the new element. A value that is not an array has no \<^verbatim>\<open>push\<close>
  (a plain object could carry one of its own, which is not followed).
\<close>

definition pushRegistration :: "state \<Rightarrow> addr \<Rightarrow> CallbackRegistration \<Rightarrow> unit result" where
  "pushRegistration st object registration =
     andThen (js_get st object (KSym observedCallbacksSymbol) object) (\<lambda>arr st1.
       case arr of
         VRegs regs \<Rightarrow>
           (case resolve (heap st1) object of
              None \<Rightarrow> Throw NoSuchObject st1
            | Some b \<Rightarrow>
                Ok () (setOwn st1 b (KSym observedCallbacksSymbol) (VRegs (regs @ [registration]))))
       | VRef r \<Rightarrow> Throw Unsupported st1
       | _ \<Rightarrow> Throw TypeError st1)"

text \<open>
  \<^verbatim>\<open>
  export const onSet = (object, callback, phase = 'after') => {
    if (typeof callback !== 'function') {
      throw new Error(errorMsgCallbackIsNotAFunction)
    }
    initCallbackArray(object)
    object[observedCallbacksSymbol].push({ cb: callback, phase })
    defineProp(object, observedCallbacksSymbol, [...object[observedCallbacksSymbol]])
  }
  \<close>
  \<open>None\<close> for \<open>phase_arg\<close> is the omitted argument.
\<close>

definition onSet :: "state \<Rightarrow> addr \<Rightarrow> val \<Rightarrow> Phase option \<Rightarrow> unit result" where
  "onSet st object callback phase_arg =
     (case callback of
        VFun f \<Rightarrow>
          andThen (initCallbackArray st object) (\<lambda>u st1.
          andThen (pushRegistration st1 object
                     \<lparr>cb = f, phase = (case phase_arg of None \<Rightarrow> After | Some p \<Rightarrow> p)\<rparr>) (\<lambda>u2 st2.
          andThen (js_get st2 object (KSym observedCallbacksSymbol) object) (\<lambda>arr st3.
            case arr of
              VRegs regs \<Rightarrow> defineProp st3 object observedCallbacksSymbol (VRegs regs)
            | _ \<Rightarrow> Throw TypeError st3)))
      | _ \<Rightarrow> Throw CallbackIsNotAFunction st)"

text \<open>
  \<^verbatim>\<open>
  export const offSet = (object, callback?) => {
    if (typeof callback === 'undefined') {
      defineProp(object, observedCallbacksSymbol, [])
      return
    }
    if (typeof callback !== 'function') {
      throw new Error(errorMsgCallbackIsNotAFunction)
    }
    if (!Array.isArray(object[observedCallbacksSymbol])) {
      throw new Error('callback is not registered')
    }
    defineProp(object, observedCallbacksSymbol,
      object[observedCallbacksSymbol].filter(
        (callbackRegistration) => callbackRegistration.cb !== callback))
  }
  \<close>
  A plain object of the store is not an array, so \<^verbatim>\<open>Array.isArray\<close> holds of \<open>VRegs\<close> only.
\<close>

fun isArray :: "val \<Rightarrow> bool" where
  "isArray (VRegs regs) = True"
| "isArray v = False"

definition offSet :: "state \<Rightarrow> addr \<Rightarrow> val \<Rightarrow> unit result" where
  "offSet st object callback =
     (if callback = VUndefined then defineProp st object observedCallbacksSymbol (VRegs [])
      else if \<not> isFunction callback then Throw CallbackIsNotAFunction st
      else
        andThen (js_get st object (KSym observedCallbacksSymbol) object) (\<lambda>arr st1.
          if \<not> isArray arr then Throw CallbackIsNotRegistered st1
          else
            andThen (js_get st1 object (KSym observedCallbacksSymbol) object) (\<lambda>arr2 st2.
              case arr2 of
                VRegs regs \<Rightarrow>
                  defineProp st2 object observedCallbacksSymbol
                    (VRegs (filter (\<lambda>callbackRegistration.
                               VFun (cb callbackRegistration) \<noteq> callback) regs))
              | _ \<Rightarrow> Throw TypeError st2)))"

subsection \<open>The handlers of the Proxy\<close>

type_synonym fenv = "fid \<Rightarrow> pkey \<Rightarrow> val \<Rightarrow> val \<Rightarrow> val \<Rightarrow> val"

text \<open>
  \<^verbatim>\<open>
        if (typeof options.onBeforeSet === 'function') {
          value = options.onBeforeSet(prop, value, valueBefore, receiver)
        }
  \<close>
\<close>

definition callOnBeforeSet ::
  "fenv \<Rightarrow> ObserveOptions \<Rightarrow> pkey \<Rightarrow> val \<Rightarrow> val \<Rightarrow> addr \<Rightarrow> state \<Rightarrow> val result" where
  "callOnBeforeSet F options prop value valueBefore receiver st =
     (case onBeforeSet options of
        Some (VFun f) \<Rightarrow>
          Ok (F f prop value valueBefore (VRef receiver))
             (log (Called f prop value valueBefore (VRef receiver)) st)
      | _ \<Rightarrow> Ok value st)"

text \<open>
  \<^verbatim>\<open>
        if (typeof options.onSet === 'function') {
          options.onSet(prop, value, valueBefore, receiver)
        }
  \<close>
\<close>

definition callOnSet :: "ObserveOptions \<Rightarrow> pkey \<Rightarrow> val \<Rightarrow> val \<Rightarrow> addr \<Rightarrow> state \<Rightarrow> unit result" where
  "callOnSet options prop value valueBefore receiver st =
     (case onSet_opt options of
        Some (VFun f) \<Rightarrow> Ok () (log (Called f prop value valueBefore (VRef receiver)) st)
      | _ \<Rightarrow> Ok () st)"

text \<open>
  The two loops of the \<^verbatim>\<open>set\<close> handler over \<^verbatim>\<open>observers\<close>:
  \<^verbatim>\<open>
        for (let i = 0; i < observers.length; i++) {
          const callbackRegistration = observers[i]
          if (callbackRegistration.phase === 'before') {
            value = callbackRegistration.cb(prop, value, valueBefore, receiver)
          }
        }
  \<close>
  and the same with \<^verbatim>\<open>'after'\<close>, where the result of the call is not assigned.
\<close>

fun informBefore ::
  "fenv \<Rightarrow> CallbackRegistration list \<Rightarrow> pkey \<Rightarrow> val \<Rightarrow> val \<Rightarrow> addr \<Rightarrow> state \<Rightarrow> val result" where
  "informBefore F [] prop value valueBefore receiver st = Ok value st"
| "informBefore F (r # rs) prop value valueBefore receiver st =
     (if phase r = Before then
        informBefore F rs prop (F (cb r) prop value valueBefore (VRef receiver)) valueBefore receiver
          (log (Called (cb r) prop value valueBefore (VRef receiver)) st)
      else informBefore F rs prop value valueBefore receiver st)"

fun informAfter ::
  "CallbackRegistration list \<Rightarrow> pkey \<Rightarrow> val \<Rightarrow> val \<Rightarrow> addr \<Rightarrow> state \<Rightarrow> unit result" where
  "informAfter [] prop value valueBefore receiver st = Ok () st"
| "informAfter (r # rs) prop value valueBefore receiver st =
     (if phase r = After then
        informAfter rs prop value valueBefore receiver
          (log (Called (cb r) prop value valueBefore (VRef receiver)) st)
      else informAfter rs prop value valueBefore receiver st)"

text \<open>
  \<^verbatim>\<open>observers.length\<close> and \<^verbatim>\<open>observers[i]\<close> for what \<^verbatim>\<open>getObservers(object)\<close> returned: a
  TypeError on \<^verbatim>\<open>undefined\<close> and \<^verbatim>\<open>null\<close>; no iteration on a boolean or a number (their
  \<^verbatim>\<open>length\<close> is \<^verbatim>\<open>undefined\<close>) and none that calls anything on a string (a character
  has no \<^verbatim>\<open>phase\<close>).
\<close>

fun observersOf :: "val \<Rightarrow> state \<Rightarrow> CallbackRegistration list result" where
  "observersOf (VRegs regs) st = Ok regs st"
| "observersOf VUndefined st = Throw TypeError st"
| "observersOf VNull st = Throw TypeError st"
| "observersOf (VBool b) st = Ok [] st"
| "observersOf (VNum i) st = Ok [] st"
| "observersOf (VStr s) st = Ok [] st"
| "observersOf (VFun f) st = Throw Unsupported st"
| "observersOf (VRef a) st = Throw Unsupported st"

text \<open>\<^verbatim>\<open>typeof value === 'object' && value !== null\<close>\<close>

fun isComposite :: "val \<Rightarrow> bool" where
  "isComposite (VRef a) = True"
| "isComposite (VRegs regs) = True"
| "isComposite v = False"

text \<open>
  \<open>js_set n F st a k v receiver\<close> is the internal method \<^verbatim>\<open>[[Set]]\<close> of the object \<open>a\<close>, that is
  \<^verbatim>\<open>Reflect.set(a, k, v, receiver)\<close>; the assignment \<^verbatim>\<open>a[k] = v\<close> is \<open>js_set n F st a k v a\<close>.
  On a plain object it stores the property (the receiver is a Proxy in front of that
  object, or the object itself, and has no \<^verbatim>\<open>defineProperty\<close> trap, so the value lands on
  the object); on a Proxy it runs the \<^verbatim>\<open>set\<close> handler \<open>setHandler\<close>. The first argument is
  fuel: \<^verbatim>\<open>observed\<close> and the handler call each other through \<^verbatim>\<open>mayObserve\<close>, without
  end on a cyclic structure, and \<open>OutOfFuel\<close> stands for a call that has not returned
  within the given depth.

  \<^verbatim>\<open>
  export const mayObserve = (value, options = defaultOptions) => {
    if (typeof value === 'object' && value !== null) {
      return observed(value, { ...options, deep: false })
    }
    return value
  }

  export const observed = (object, options = defaultOptions) => {
    options = { ...defaultOptions, ...options }
    initCallbackArray(object)
    const keys = Object.keys(object)
    for (let i = 0; i < keys.length; i++) {
      object[keys[i]] = mayObserve(object[keys[i]], options)
    }
    if (isObserved(object)) {
      return object
    } else {
      const proxy = new Proxy(object, { get: ..., set: ... })
      defineProp(object, observedSymbol, true)
      return proxy
    }
  }
  \<close>
  with the handler
  \<^verbatim>\<open>
      set: (target, prop, value, receiver) => {
        const valueBefore = target[prop]
        value = mayObserve(value, options)
        if (typeof options.onBeforeSet === 'function') {
          value = options.onBeforeSet(prop, value, valueBefore, receiver)
        }
        const observers = getObservers(object)
        ... the 'before' loop ...
        Reflect.set(target, prop, value, receiver)
        ... the 'after' loop ...
        if (typeof options.onSet === 'function') {
          options.onSet(prop, value, valueBefore, receiver)
        }
        return true
      },
  \<close>
  \<open>observeKeys\<close> is the \<^verbatim>\<open>for\<close> loop of \<^verbatim>\<open>observed\<close> over the remaining keys. An omitted
  \<^verbatim>\<open>options\<close> argument is the argument \<open>defaultOptions\<close>. A registry array as the value
  to observe is not followed (\<open>Unsupported\<close>).
\<close>

function (sequential) js_set :: "nat \<Rightarrow> fenv \<Rightarrow> state \<Rightarrow> addr \<Rightarrow> pkey \<Rightarrow> val \<Rightarrow> addr \<Rightarrow> bool result"
  and setHandler ::
    "nat \<Rightarrow> fenv \<Rightarrow> state \<Rightarrow> addr \<Rightarrow> ObserveOptions \<Rightarrow> pkey \<Rightarrow> val \<Rightarrow> addr \<Rightarrow> bool result"
  and mayObserve :: "nat \<Rightarrow> fenv \<Rightarrow> state \<Rightarrow> val \<Rightarrow> ObserveOptions \<Rightarrow> val result"
  and observed :: "nat \<Rightarrow> fenv \<Rightarrow> state \<Rightarrow> addr \<Rightarrow> ObserveOptions \<Rightarrow> addr result"
  and observeKeys ::
    "nat \<Rightarrow> fenv \<Rightarrow> state \<Rightarrow> addr \<Rightarrow> string list \<Rightarrow> ObserveOptions \<Rightarrow> unit result"
where
  "js_set 0 F st a k v receiver = OutOfFuel"
| "js_set (Suc n) F st a k v receiver =
     (case cellAt st a of
        None \<Rightarrow> Throw NoSuchObject st
      | Some (Obj ps) \<Rightarrow> Ok True (log (Written a k v) (setOwn st a k v))
      | Some (Proxy target options) \<Rightarrow> setHandler n F st target options k v receiver)"
| "setHandler 0 F st target options prop value receiver = OutOfFuel"
| "setHandler (Suc n) F st target options prop value receiver =
     andThen (js_get st target prop target) (\<lambda>valueBefore st1.
     andThen (mayObserve n F st1 value options) (\<lambda>value1 st2.
     andThen (callOnBeforeSet F options prop value1 valueBefore receiver st2) (\<lambda>value2 st3.
     andThen (getObservers st3 target) (\<lambda>observers st4.
     andThen (observersOf observers st4) (\<lambda>regs st5.
     andThen (informBefore F regs prop value2 valueBefore receiver st5) (\<lambda>value3 st6.
     andThen (js_set n F st6 target prop value3 receiver) (\<lambda>b st7.
     andThen (informAfter regs prop value3 valueBefore receiver st7) (\<lambda>u st8.
     andThen (callOnSet options prop value3 valueBefore receiver st8) (\<lambda>u2 st9.
     Ok True st9)))))))))"
| "mayObserve 0 F st value options = OutOfFuel"
| "mayObserve (Suc n) F st value options =
     (if isComposite value then
        (case value of
           VRef a \<Rightarrow>
             andThen (observed n F st a (options\<lparr>deep := Some (VBool False)\<rparr>)) (\<lambda>w st1.
             Ok (VRef w) st1)
         | _ \<Rightarrow> Throw Unsupported st)
      else Ok value st)"
| "observed 0 F st object options_arg = OutOfFuel"
| "observed (Suc n) F st object options_arg =
     andThen (initCallbackArray st object) (\<lambda>u st1.
     andThen (objectKeys st1 object) (\<lambda>keys st2.
     andThen (observeKeys n F st2 object keys (spread defaultOptions options_arg)) (\<lambda>u2 st3.
     andThen (isObserved st3 object) (\<lambda>b st4.
       if b then Ok object st4
       else
         andThen (newProxy st4 object (spread defaultOptions options_arg)) (\<lambda>proxy st5.
         andThen (defineProp st5 object observedSymbol (VBool True)) (\<lambda>u3 st6.
         Ok proxy st6))))))"
| "observeKeys 0 F st object keys options = OutOfFuel"
| "observeKeys (Suc n) F st object [] options = Ok () st"
| "observeKeys (Suc n) F st object (key # keys) options =
     andThen (js_get st object (KStr key) object) (\<lambda>v st1.
     andThen (mayObserve n F st1 v options) (\<lambda>v' st2.
     andThen (js_set n F st2 object (KStr key) v' object) (\<lambda>b st3.
     observeKeys n F st3 object keys options)))"
  by pat_completeness auto
termination
  by (relation "measure (case_sum (case_sum fst fst) (case_sum fst (case_sum fst fst)))") auto

section \<open>Notions used in the statements\<close>

definition node :: "state \<Rightarrow> addr \<Rightarrow> addr \<Rightarrow> props \<Rightarrow> bool" where
  "node st a b ps \<longleftrightarrow> resolve (heap st) a = Some b \<and> heap st ! b = Obj ps"

definition exRegistry :: "CallbackRegistration list" where
  "exRegistry = [\<lparr>cb = 5, phase = Before\<rparr>, \<lparr>cb = 6, phase = After\<rparr>, \<lparr>cb = 5, phase = After\<rparr>]"

definition exProps :: props where
  "exProps = [(KStr ''test'', VNum 123), (KSym observedCallbacksSymbol, VRegs exRegistry),
              (KSym observedSymbol, VBool True)]"

definition exOptions :: ObserveOptions where
  "exOptions = \<lparr>deep = Some (VBool True), onBeforeSet = Some (VFun 1), onSet_opt = Some (VFun 2),
                 onGet = Some (VFun 3)\<rparr>"

definition exState :: state where
  "exState = \<lparr>heap = [Obj exProps, Proxy 0 exOptions, Obj []], trace = []\<rparr>"

definition keeps :: "cell list \<Rightarrow> cell list \<Rightarrow> bool" where
  "keeps h h' \<longleftrightarrow>
     length h \<le> length h' \<and>
     (\<forall>a < length h.
        (\<forall>t opts. h ! a = Proxy t opts \<longrightarrow> h' ! a = Proxy t opts) \<and>
        (\<forall>ps. h ! a = Obj ps \<longrightarrow>
           (\<exists>ps'. h' ! a = Obj ps' \<and>
              (\<forall>y. truthy (propGet ps (KSym y)) \<longrightarrow> propGet ps' (KSym y) = propGet ps (KSym y))))) \<and>
     (\<forall>a. length h \<le> a \<and> a < length h' \<longrightarrow>
        (\<exists>t opts b ps ps'. h' ! a = Proxy t opts \<and> t < length h \<and> resolve h t = Some b \<and>
           h ! b = Obj ps \<and> \<not> truthy (propGet ps (KSym observedSymbol)) \<and>
           h' ! b = Obj ps' \<and> truthy (propGet ps' (KSym observedSymbol))))"

definition framed :: "nat \<Rightarrow> fenv \<Rightarrow> bool" where
  "framed n F \<longleftrightarrow>
     (\<forall>st a s v r x st'. js_set n F st a (KStr s) v r = Ok x st' \<longrightarrow> keeps (heap st) (heap st')) \<and>
     (\<forall>st t opts s v r x st'.
        setHandler n F st t opts (KStr s) v r = Ok x st' \<longrightarrow> keeps (heap st) (heap st')) \<and>
     (\<forall>st v opts x st'. mayObserve n F st v opts = Ok x st' \<longrightarrow> keeps (heap st) (heap st')) \<and>
     (\<forall>st a opts x st'. observed n F st a opts = Ok x st' \<longrightarrow> keeps (heap st) (heap st')) \<and>
     (\<forall>st a ks opts x st'. observeKeys n F st a ks opts = Ok x st' \<longrightarrow> keeps (heap st) (heap st'))"

definition monotone :: "nat \<Rightarrow> fenv \<Rightarrow> bool" where
  "monotone n F \<longleftrightarrow>
     (\<forall>st a k v r x st'. js_set n F st a k v r = Ok x st' \<longrightarrow> js_set (Suc n) F st a k v r = Ok x st') \<and>
     (\<forall>st t opts k v r x st'.
        setHandler n F st t opts k v r = Ok x st' \<longrightarrow> setHandler (Suc n) F st t opts k v r = Ok x st') \<and>
     (\<forall>st v opts x st'. mayObserve n F st v opts = Ok x st' \<longrightarrow> mayObserve (Suc n) F st v opts = Ok x st') \<and>
     (\<forall>st a opts x st'. observed n F st a opts = Ok x st' \<longrightarrow> observed (Suc n) F st a opts = Ok x st') \<and>
     (\<forall>st a ks opts x st'.
        observeKeys n F st a ks opts = Ok x st' \<longrightarrow> observeKeys (Suc n) F st a ks opts = Ok x st')"

definition globalBefore :: "ObserveOptions \<Rightarrow> fid list" where
  "globalBefore options = (case onBeforeSet options of Some (VFun f) \<Rightarrow> [f] | _ \<Rightarrow> [])"

definition globalAfter :: "ObserveOptions \<Rightarrow> fid list" where
  "globalAfter options = (case onSet_opt options of Some (VFun f) \<Rightarrow> [f] | _ \<Rightarrow> [])"

definition registered :: "Phase \<Rightarrow> CallbackRegistration list \<Rightarrow> fid list" where
  "registered ph regs = map cb (filter (\<lambda>r. phase r = ph) regs)"

definition beforeCallbacks :: "ObserveOptions \<Rightarrow> CallbackRegistration list \<Rightarrow> fid list" where
  "beforeCallbacks options regs = globalBefore options @ registered Before regs"

definition afterCallbacks :: "ObserveOptions \<Rightarrow> CallbackRegistration list \<Rightarrow> fid list" where
  "afterCallbacks options regs = registered After regs @ globalAfter options"

definition pipeline :: "fenv \<Rightarrow> fid list \<Rightarrow> pkey \<Rightarrow> val \<Rightarrow> val \<Rightarrow> addr \<Rightarrow> val" where
  "pipeline F fs k v vb receiver = foldl (\<lambda>x f. F f k x vb (VRef receiver)) v fs"

fun pipelineCalls :: "fenv \<Rightarrow> fid list \<Rightarrow> pkey \<Rightarrow> val \<Rightarrow> val \<Rightarrow> addr \<Rightarrow> event list" where
  "pipelineCalls F [] k v vb receiver = []"
| "pipelineCalls F (f # fs) k v vb receiver =
     Called f k v vb (VRef receiver) # pipelineCalls F fs k (F f k v vb (VRef receiver)) vb receiver"

definition notifications :: "fid list \<Rightarrow> pkey \<Rightarrow> val \<Rightarrow> val \<Rightarrow> addr \<Rightarrow> event list" where
  "notifications fs k v vb receiver = map (\<lambda>f. Called f k v vb (VRef receiver)) fs"

fun callee :: "event \<Rightarrow> fid option" where
  "callee (Called f k v w r) = Some f"
| "callee (Written a k v) = None"

definition written ::
  "fenv \<Rightarrow> state \<Rightarrow> addr \<Rightarrow> props \<Rightarrow> ObserveOptions \<Rightarrow> CallbackRegistration list \<Rightarrow>
   pkey \<Rightarrow> val \<Rightarrow> val \<Rightarrow> addr \<Rightarrow> state" where
  "written F st2 t ps2 options regs k v1 vb receiver =
     st2\<lparr>heap := (heap st2)[t := Obj (propSet ps2 k
                    (pipeline F (beforeCallbacks options regs) k v1 vb receiver))],
          trace := trace st2 @
            pipelineCalls F (beforeCallbacks options regs) k v1 vb receiver @
            [Written t k (pipeline F (beforeCallbacks options regs) k v1 vb receiver)] @
            notifications (afterCallbacks options regs) k
              (pipeline F (beforeCallbacks options regs) k v1 vb receiver) vb receiver\<rparr>"

fun calls :: "event list \<Rightarrow> fid list" where
  "calls [] = []"
| "calls (Called f k v w r # es) = f # calls es"
| "calls (Written a k v # es) = calls es"

definition exF :: fenv where
  "exF f k v vb r =
     (case v of
        VNum i \<Rightarrow> (if f = 1 then VNum (2 * i) else if f = 5 then VNum (i + 1) else VUndefined)
      | _ \<Rightarrow> (if f = 1 \<or> f = 5 then v else VUndefined))"

definition exF' :: fenv where
  "exF' f k v vb r = (if f = 1 \<or> f = 5 then exF f k v vb r else VNum 999)"

definition exRaw :: state where
  "exRaw = \<lparr>heap = [Obj [(KStr ''foo'', VStr ''X''), (KStr ''cool'', VRef 1)],
                     Obj [(KStr ''test'', VNum 123)]], trace = []\<rparr>"

definition exWrappedHeap :: "cell list" where
  "exWrappedHeap =
     [Obj [(KStr ''foo'', VStr ''X''), (KStr ''cool'', VRef 2),
           (KSym observedCallbacksSymbol, VRegs []), (KSym observedSymbol, VBool True)],
      Obj [(KStr ''test'', VNum 123),
           (KSym observedCallbacksSymbol, VRegs []), (KSym observedSymbol, VBool True)],
      Proxy 1 \<lparr>deep = Some (VBool False), onBeforeSet = None, onSet_opt = None, onGet = None\<rparr>,
      Proxy 0 \<lparr>deep = Some (VBool True), onBeforeSet = None, onSet_opt = None, onGet = None\<rparr>]"

definition exWrapped :: state where
  "exWrapped = \<lparr>heap = exWrappedHeap,
                 trace = [Written 0 (KStr ''foo'') (VStr ''X''), Written 1 (KStr ''test'') (VNum 123),
                          Written 0 (KStr ''cool'') (VRef 2)]\<rparr>"


definition exEmpty :: state where
  "exEmpty = \<lparr>heap = [Obj [], Obj []], trace = []\<rparr>"

definition exShallow :: ObserveOptions where
  "exShallow = \<lparr>deep = Some (VBool False), onBeforeSet = None, onSet_opt = None, onGet = None\<rparr>"

definition exEmptyWrapped :: state where
  "exEmptyWrapped =
     \<lparr>heap = [Obj [(KSym observedCallbacksSymbol, VRegs []), (KSym observedSymbol, VBool True)],
              Obj [],
              Proxy 0 exShallow],
      trace = []\<rparr>"

definition exEmptyWritten :: state where
  "exEmptyWritten =
     \<lparr>heap = [Obj [(KSym observedCallbacksSymbol, VRegs []), (KSym observedSymbol, VBool True),
                   (KStr ''a'', VRef 3)],
              Obj [(KSym observedCallbacksSymbol, VRegs []), (KSym observedSymbol, VBool True)],
              Proxy 0 exShallow,
              Proxy 1 exShallow],
      trace = [Written 0 (KStr ''a'') (VRef 3)]\<rparr>"



text \<open>
  \<open>wrappedDown d h a\<close>: the node \<open>a\<close> is wrapped all the way down, within the depth \<open>d\<close>. It is
  a plain object that carries the marker and a registry array, or a Proxy directly over
  such an object, and every value under a string key of the object is a primitive, a
  function or a reference to a node that is wrapped all the way down within \<open>d - 1\<close>. A
  structure with a cycle is of no depth.
\<close>

definition valOk :: "(addr \<Rightarrow> bool) \<Rightarrow> val \<Rightarrow> bool" where
  "valOk P v = (case v of VRef c \<Rightarrow> P c | VRegs regs \<Rightarrow> False | _ \<Rightarrow> True)"










text \<open>What a call returned and the store it left, without the trace.\<close>

definition outcome :: "'a result \<Rightarrow> ('a \<times> cell list) option" where
  "outcome r = (case r of Ok x st \<Rightarrow> Some (x, heap st) | _ \<Rightarrow> None)"






section \<open>Basic facts\<close>

lemma andThen_simps [simp]:
  "andThen OutOfFuel f = OutOfFuel"
  "andThen (Throw e st) f = Throw e st"
  "andThen (Ok x st) f = f x st"
  by (simp_all add: andThen_def)

lemma andThen_eq_Ok:
  "(andThen r f = Ok y st') = (\<exists>x st. r = Ok x st \<and> f x st = Ok y st')"
  by (cases r) simp_all

lemma heap_log [simp]: "heap (log e st) = heap st"
  by (simp add: log_def)

lemma trace_log [simp]: "trace (log e st) = trace st @ [e]"
  by (simp add: log_def)

lemma cellAt_log [simp]: "cellAt (log e st) a = cellAt st a"
  by (simp add: cellAt_def)

lemma propGet_propSet:
  "propGet (propSet ps k v) k' = (if k' = k then v else propGet ps k')"
  by (induction ps) (auto simp: propGet_def)

lemma stringKeys_propSet_sym [simp]:
  "stringKeys (propSet ps (KSym y) v) = stringKeys ps"
  by (induction ps rule: stringKeys.induct) auto

lemma resolve_Obj: "a < length h \<Longrightarrow> h ! a = Obj ps \<Longrightarrow> resolve h a = Some a"
  by (subst resolve.simps) simp

lemma resolve_Proxy:
  "a < length h \<Longrightarrow> h ! a = Proxy t opts \<Longrightarrow> resolve h a = (if t < a then resolve h t else None)"
  by (subst resolve.simps) simp

lemma resolve_SomeD:
  "resolve h a = Some b \<Longrightarrow> b \<le> a \<and> a < length h \<and> (\<exists>ps. h ! b = Obj ps)"
proof (induction h a rule: resolve.induct)
  case (1 h a)
  show ?case
  proof (cases "a < length h")
    case False
    with "1.prems" show ?thesis by (subst (asm) resolve.simps) simp
  next
    case True
    show ?thesis
    proof (cases "h ! a")
      case (Obj ps)
      with True "1.prems" show ?thesis by (subst (asm) resolve.simps) auto
    next
      case (Proxy t opts)
      with True "1.prems" have lt: "t < a" and r: "resolve h t = Some b"
        by (subst (asm) resolve.simps, simp split: if_splits)+
      from "1.IH"[OF True Proxy lt r] lt True show ?thesis by auto
    qed
  qed
qed

lemma callOnGet_Ok:
  "callOnGet options k v t r st = Ok u st' \<Longrightarrow> heap st' = heap st"
  by (auto simp: callOnGet_def split: option.splits val.splits)

lemma callOnGet_total: "\<exists>st'. callOnGet options k v t r st = Ok () st' \<and> heap st' = heap st"
  by (auto simp: callOnGet_def split: option.splits val.splits)

lemma js_get_base:
  "resolve (heap st) a = Some b \<Longrightarrow> heap st ! b = Obj ps \<Longrightarrow>
   \<exists>st'. js_get st a k r = Ok (propGet ps k) st' \<and> heap st' = heap st"
proof (induction st a k r rule: js_get.induct)
  case (1 st a k r)
  from resolve_SomeD[OF "1.prems"(1)] have a: "a < length (heap st)" by simp
  show ?case
  proof (cases "heap st ! a")
    case (Obj ps')
    with a "1.prems" have "b = a" by (simp add: resolve_Obj)
    with Obj a "1.prems" show ?thesis
      by (subst js_get.simps) (simp add: cellAt_def)
  next
    case (Proxy t opts)
    with a "1.prems" have lt: "t < a" and rt: "resolve (heap st) t = Some b"
      by (auto simp: resolve_Proxy split: if_splits)
    have c: "cellAt st a = Some (Proxy t opts)" using a Proxy by (simp add: cellAt_def)
    from "1.IH"[OF c refl lt rt "1.prems"(2)]
    obtain st1 where g: "js_get st t k r = Ok (propGet ps k) st1" and h: "heap st1 = heap st"
      by blast
    from callOnGet_total[of opts k "propGet ps k" t r st1]
    obtain st2 where cg: "callOnGet opts k (propGet ps k) t r st1 = Ok () st2" and h2: "heap st2 = heap st1"
      by blast
    show ?thesis
      by (subst js_get.simps) (simp add: c lt g cg h h2)
  qed
qed

lemma js_get_OkD:
  "js_get st a k r = Ok v st' \<Longrightarrow>
   heap st' = heap st \<and> (\<exists>b ps. resolve (heap st) a = Some b \<and> heap st ! b = Obj ps \<and> v = propGet ps k)"
proof (induction st a k r arbitrary: v st' rule: js_get.induct)
  case (1 st a k r)
  show ?case
  proof (cases "cellAt st a")
    case None
    with "1.prems" show ?thesis by (subst (asm) js_get.simps) simp
  next
    case (Some c)
    then have a: "a < length (heap st)" and c: "heap st ! a = c"
      by (auto simp: cellAt_def split: if_splits)
    show ?thesis
    proof (cases c)
      case (Obj ps)
      with Some "1.prems" a c show ?thesis
        by (subst (asm) js_get.simps) (auto simp: resolve_Obj)
    next
      case (Proxy t opts)
      with Some "1.prems" have lt: "t < a"
        by (subst (asm) js_get.simps) (simp split: if_splits)
      from Proxy Some "1.prems" lt obtain v1 st1 u where
        g: "js_get st t k r = Ok v1 st1" and cg: "callOnGet opts k v1 t r st1 = Ok u st'" and v: "v = v1"
        by (subst (asm) js_get.simps) (auto simp: andThen_eq_Ok)
      from "1.IH"[OF Some Proxy lt g] callOnGet_Ok[OF cg] v a c Proxy lt
      show ?thesis by (auto simp: resolve_Proxy)
    qed
  qed
qed

lemma propSet_propSet [simp]: "propSet (propSet ps k v) k v' = propSet ps k v'"
  by (induction ps) auto

lemma resolve_update_Obj:
  "b < length h \<Longrightarrow> h ! b = Obj ps \<Longrightarrow> resolve (h[b := Obj ps']) a = resolve h a"
proof (induction h a rule: resolve.induct)
  case (1 h a)
  show ?case
  proof (cases "a < length h")
    case False
    then show ?thesis by (subst resolve.simps, subst (2) resolve.simps) simp
  next
    case True
    show ?thesis
    proof (cases "h ! a")
      case (Obj qs)
      with True "1.prems" show ?thesis
        by (cases "a = b") (simp_all add: resolve_Obj)
    next
      case (Proxy t opts)
      with "1.prems" have ab: "a \<noteq> b" by auto
      show ?thesis
      proof (cases "t < a")
        case lt: True
        from "1.IH"[OF True Proxy lt "1.prems"] True Proxy ab lt show ?thesis
          by (simp add: resolve_Proxy)
      next
        case False
        with True Proxy ab show ?thesis by (simp add: resolve_Proxy)
      qed
    qed
  qed
qed

lemma setOwn_Obj:
  "heap st ! b = Obj ps \<Longrightarrow> setOwn st b k v = st\<lparr>heap := (heap st)[b := Obj (propSet ps k v)]\<rparr>"
  by (simp add: setOwn_def)

lemma defineProp_base:
  "resolve (heap st) a = Some b \<Longrightarrow> heap st ! b = Obj ps \<Longrightarrow>
   defineProp st a y v = Ok () (st\<lparr>heap := (heap st)[b := Obj (propSet ps (KSym y) v)]\<rparr>)"
  by (simp add: defineProp_def setOwn_Obj)

lemma node_get:
  "node st a b ps \<Longrightarrow> \<exists>st'. js_get st a k r = Ok (propGet ps k) st' \<and> heap st' = heap st"
  unfolding node_def using js_get_base by blast

lemma node_define:
  assumes "node st a b ps"
  shows "defineProp st a y v = Ok () (st\<lparr>heap := (heap st)[b := Obj (propSet ps (KSym y) v)]\<rparr>)"
    and "node (st\<lparr>heap := (heap st)[b := Obj (propSet ps (KSym y) v)]\<rparr>) a b (propSet ps (KSym y) v)"
proof -
  from assms have r: "resolve (heap st) a = Some b" and o: "heap st ! b = Obj ps"
    by (simp_all add: node_def)
  from resolve_SomeD[OF r] have b: "b < length (heap st)" by simp
  have "resolve ((heap st)[b := Obj (propSet ps (KSym y) v)]) a = Some b"
    using resolve_update_Obj[OF b o] r by simp
  then show "node (st\<lparr>heap := (heap st)[b := Obj (propSet ps (KSym y) v)]\<rparr>) a b (propSet ps (KSym y) v)"
    using b by (simp add: node_def)
  show "defineProp st a y v = Ok () (st\<lparr>heap := (heap st)[b := Obj (propSet ps (KSym y) v)]\<rparr>)"
    using r o by (rule defineProp_base)
qed

lemma initCallbackArray_node:
  assumes "node st a b ps"
  shows "\<exists>st'. initCallbackArray st a = Ok () st' \<and>
           heap st' = (if truthy (propGet ps (KSym observedCallbacksSymbol)) then heap st
                       else (heap st)[b := Obj (propSet ps (KSym observedCallbacksSymbol) (VRegs []))])"
proof -
  from node_get[OF assms, of "KSym observedCallbacksSymbol" a] obtain st1 where
    g: "js_get st a (KSym observedCallbacksSymbol) a = Ok (propGet ps (KSym observedCallbacksSymbol)) st1"
    and h: "heap st1 = heap st" by blast
  have n1: "node st1 a b ps" using assms h by (simp add: node_def)
  show ?thesis
  proof (cases "truthy (propGet ps (KSym observedCallbacksSymbol))")
    case True
    then show ?thesis using g h by (simp add: initCallbackArray_def)
  next
    case False
    then show ?thesis using g h node_define(1)[OF n1, of observedCallbacksSymbol "VRegs []"]
      by (simp add: initCallbackArray_def)
  qed
qed

lemma pushRegistration_node:
  assumes "node st a b ps" and "propGet ps (KSym observedCallbacksSymbol) = VRegs regs"
  shows "\<exists>st'. pushRegistration st a r = Ok () st' \<and>
           heap st' = (heap st)[b := Obj (propSet ps (KSym observedCallbacksSymbol) (VRegs (regs @ [r])))]"
proof -
  from node_get[OF assms(1), of "KSym observedCallbacksSymbol" a] assms(2) obtain st1 where
    g: "js_get st a (KSym observedCallbacksSymbol) a = Ok (VRegs regs) st1"
    and h: "heap st1 = heap st" by auto
  have "resolve (heap st1) a = Some b" "heap st1 ! b = Obj ps"
    using assms(1) h by (simp_all add: node_def)
  then show ?thesis
    using g h by (simp add: pushRegistration_def setOwn_Obj)
qed

section \<open>The frame of the recursive operations\<close>

lemma andThenE:
  assumes "andThen r f = Ok y st'"
  obtains x st where "r = Ok x st" and "f x st = Ok y st'"
  using assms by (auto simp: andThen_eq_Ok)

lemma keeps_refl [simp]: "keeps h h"
  by (auto simp: keeps_def)

lemma keeps_lengthD: "keeps h h' \<Longrightarrow> length h \<le> length h'"
  by (simp add: keeps_def)

lemma keeps_ProxyD:
  "keeps h h' \<Longrightarrow> a < length h \<Longrightarrow> h ! a = Proxy t opts \<Longrightarrow> h' ! a = Proxy t opts"
  by (simp add: keeps_def)

lemma keeps_ObjD:
  "keeps h h' \<Longrightarrow> a < length h \<Longrightarrow> h ! a = Obj ps \<Longrightarrow>
   \<exists>ps'. h' ! a = Obj ps' \<and>
     (\<forall>y. truthy (propGet ps (KSym y)) \<longrightarrow> propGet ps' (KSym y) = propGet ps (KSym y))"
  by (simp add: keeps_def)

lemma keeps_newD:
  "keeps h h' \<Longrightarrow> length h \<le> a \<Longrightarrow> a < length h' \<Longrightarrow>
   \<exists>t opts b ps ps'. h' ! a = Proxy t opts \<and> t < length h \<and> resolve h t = Some b \<and>
      h ! b = Obj ps \<and> \<not> truthy (propGet ps (KSym observedSymbol)) \<and>
      h' ! b = Obj ps' \<and> truthy (propGet ps' (KSym observedSymbol))"
  by (simp add: keeps_def)

lemma keeps_resolve:
  "keeps h h' \<Longrightarrow> a < length h \<Longrightarrow> resolve h' a = resolve h a"
proof (induction h a rule: resolve.induct)
  case (1 h a)
  from "1.prems" have a': "a < length h'" using keeps_lengthD by fastforce
  show ?case
  proof (cases "h ! a")
    case (Obj ps)
    from keeps_ObjD[OF "1.prems"(1,2) Obj] obtain ps' where "h' ! a = Obj ps'" by blast
    with Obj "1.prems" a' show ?thesis by (simp add: resolve_Obj)
  next
    case (Proxy t opts)
    from keeps_ProxyD[OF "1.prems"(1,2) Proxy] have p': "h' ! a = Proxy t opts" .
    show ?thesis
    proof (cases "t < a")
      case True
      with "1.prems" have "t < length h" by simp
      from "1.IH"[OF "1.prems"(2) Proxy True "1.prems"(1) this] True Proxy p' a' "1.prems"(2)
      show ?thesis by (simp add: resolve_Proxy)
    next
      case False
      with Proxy p' a' "1.prems"(2) show ?thesis by (simp add: resolve_Proxy)
    qed
  qed
qed

lemma keeps_trans:
  assumes k1: "keeps h h'" and k2: "keeps h' h''"
  shows "keeps h h''"
proof -
  have len: "length h \<le> length h'" "length h' \<le> length h''"
    using k1 k2 by (simp_all add: keeps_def)
  have old: "(\<forall>t opts. h ! a = Proxy t opts \<longrightarrow> h'' ! a = Proxy t opts) \<and>
        (\<forall>ps. h ! a = Obj ps \<longrightarrow>
           (\<exists>ps'. h'' ! a = Obj ps' \<and>
              (\<forall>y. truthy (propGet ps (KSym y)) \<longrightarrow> propGet ps' (KSym y) = propGet ps (KSym y))))"
    if a: "a < length h" for a
  proof (intro conjI allI impI)
    fix t opts assume "h ! a = Proxy t opts"
    from keeps_ProxyD[OF k1 a this] have "h' ! a = Proxy t opts" .
    from keeps_ProxyD[OF k2 _ this] a len show "h'' ! a = Proxy t opts" by simp
  next
    fix ps assume "h ! a = Obj ps"
    from keeps_ObjD[OF k1 a this] obtain ps' where
      1: "h' ! a = Obj ps'" and
      2: "\<forall>y. truthy (propGet ps (KSym y)) \<longrightarrow> propGet ps' (KSym y) = propGet ps (KSym y)" by blast
    from a len have "a < length h'" by simp
    from keeps_ObjD[OF k2 this 1] obtain ps'' where
      3: "h'' ! a = Obj ps''" and
      4: "\<forall>y. truthy (propGet ps' (KSym y)) \<longrightarrow> propGet ps'' (KSym y) = propGet ps' (KSym y)" by blast
    from 2 4 have "\<forall>y. truthy (propGet ps (KSym y)) \<longrightarrow> propGet ps'' (KSym y) = propGet ps (KSym y)"
      by metis
    with 3 show "\<exists>ps'. h'' ! a = Obj ps' \<and>
              (\<forall>y. truthy (propGet ps (KSym y)) \<longrightarrow> propGet ps' (KSym y) = propGet ps (KSym y))"
      by blast
  qed
  have new: "\<exists>t opts b ps ps'. h'' ! a = Proxy t opts \<and> t < length h \<and> resolve h t = Some b \<and>
           h ! b = Obj ps \<and> \<not> truthy (propGet ps (KSym observedSymbol)) \<and>
           h'' ! b = Obj ps' \<and> truthy (propGet ps' (KSym observedSymbol))"
    if a: "length h \<le> a" "a < length h''" for a
  proof (cases "a < length h'")
    case True
    from keeps_newD[OF k1 a(1) True] obtain t opts b ps ps' where
      n: "h' ! a = Proxy t opts" "t < length h" "resolve h t = Some b" "h ! b = Obj ps"
         "\<not> truthy (propGet ps (KSym observedSymbol))" "h' ! b = Obj ps'"
         "truthy (propGet ps' (KSym observedSymbol))" by blast
    from keeps_ProxyD[OF k2 True n(1)] have 1: "h'' ! a = Proxy t opts" .
    from resolve_SomeD[OF n(3)] len have "b < length h'" by simp
    from keeps_ObjD[OF k2 this n(6)] n(7) obtain ps'' where
      "h'' ! b = Obj ps''" "truthy (propGet ps'' (KSym observedSymbol))" by metis
    with 1 n show ?thesis by blast
  next
    case False
    then have a': "length h' \<le> a" by simp
    from keeps_newD[OF k2 a' a(2)] obtain t opts b ps' ps'' where
      n: "h'' ! a = Proxy t opts" "t < length h'" "resolve h' t = Some b" "h' ! b = Obj ps'"
         "\<not> truthy (propGet ps' (KSym observedSymbol))" "h'' ! b = Obj ps''"
         "truthy (propGet ps'' (KSym observedSymbol))" by blast
    have t: "t < length h"
    proof (rule ccontr)
      assume "\<not> t < length h"
      then have "length h \<le> t" by simp
      from keeps_newD[OF k1 this n(2)] obtain t2 o2 b2 ps2 ps2' where
        m: "h' ! t = Proxy t2 o2" "t2 < length h" "resolve h t2 = Some b2"
           "h' ! b2 = Obj ps2'" "truthy (propGet ps2' (KSym observedSymbol))" by blast
      from m(2) \<open>length h \<le> t\<close> have "t2 < t" by simp
      with n(2) m(1) have "resolve h' t = resolve h' t2" by (simp add: resolve_Proxy)
      also have "\<dots> = resolve h t2" by (rule keeps_resolve[OF k1 m(2)])
      finally have "b = b2" using n(3) m(3) by simp
      with n(4,5) m(4,5) show False by simp
    qed
    from keeps_resolve[OF k1 t] n(3) have r: "resolve h t = Some b" by simp
    from resolve_SomeD[OF r] have b: "b < length h" by simp
    have "\<exists>ps. h ! b = Obj ps \<and> \<not> truthy (propGet ps (KSym observedSymbol))"
    proof (cases "h ! b")
      case (Obj ps)
      from keeps_ObjD[OF k1 b Obj] n(4,5) have "\<not> truthy (propGet ps (KSym observedSymbol))"
        by auto
      with Obj show ?thesis by blast
    next
      case (Proxy t2 o2)
      from keeps_ProxyD[OF k1 b Proxy] n(4) show ?thesis by simp
    qed
    with n t r show ?thesis by blast
  qed
  from len old new show ?thesis unfolding keeps_def by (intro conjI allI impI) auto
qed

lemma keeps_update_Obj:
  assumes "b < length h" and "h ! b = Obj ps"
    and "\<forall>y. truthy (propGet ps (KSym y)) \<longrightarrow> propGet ps' (KSym y) = propGet ps (KSym y)"
  shows "keeps h (h[b := Obj ps'])"
  unfolding keeps_def
proof (intro conjI allI impI)
  show "length h \<le> length (h[b := Obj ps'])" by simp
next
  fix a t opts assume "a < length h" "h ! a = Proxy t opts"
  with assms show "h[b := Obj ps'] ! a = Proxy t opts" by (cases "a = b") auto
next
  fix a qs assume a: "a < length h" "h ! a = Obj qs"
  show "\<exists>qs'. h[b := Obj ps'] ! a = Obj qs' \<and>
          (\<forall>y. truthy (propGet qs (KSym y)) \<longrightarrow> propGet qs' (KSym y) = propGet qs (KSym y))"
  proof (cases "a = b")
    case True
    with a assms show ?thesis by auto
  next
    case False
    with a show ?thesis by auto
  qed
next
  fix a assume "length h \<le> a \<and> a < length (h[b := Obj ps'])"
  then show "\<exists>t opts b' qs qs'. h[b := Obj ps'] ! a = Proxy t opts \<and> t < length h \<and>
       resolve h t = Some b' \<and> h ! b' = Obj qs \<and> \<not> truthy (propGet qs (KSym observedSymbol)) \<and>
       h[b := Obj ps'] ! b' = Obj qs' \<and> truthy (propGet qs' (KSym observedSymbol))"
    by auto
qed

lemma keeps_setOwn_str: "a < length (heap st) \<Longrightarrow> keeps (heap st) (heap (setOwn st a (KStr s) v))"
proof (cases "heap st ! a")
  case (Obj ps)
  assume a: "a < length (heap st)"
  have "keeps (heap st) ((heap st)[a := Obj (propSet ps (KStr s) v)])"
    by (rule keeps_update_Obj[OF a Obj]) (simp add: propGet_propSet)
  with Obj show ?thesis by (simp add: setOwn_def)
next
  case (Proxy t opts)
  then show ?thesis by (simp add: setOwn_def)
qed

lemma keeps_define:
  assumes "node st a b ps" and "\<not> truthy (propGet ps (KSym y))"
  shows "keeps (heap st) ((heap st)[b := Obj (propSet ps (KSym y) v)])"
proof -
  from assms(1) have r: "resolve (heap st) a = Some b" and o: "heap st ! b = Obj ps"
    by (simp_all add: node_def)
  from resolve_SomeD[OF r] have b: "b < length (heap st)" by simp
  have "\<forall>z. truthy (propGet ps (KSym z)) \<longrightarrow>
          propGet (propSet ps (KSym y) v) (KSym z) = propGet ps (KSym z)"
    using assms(2) by (auto simp: propGet_propSet)
  then show ?thesis
    by (rule keeps_update_Obj[OF b o])
qed

lemma keeps_newProxy:
  assumes r: "resolve h t = Some b" and o: "h ! b = Obj ps"
    and u: "\<not> truthy (propGet ps (KSym observedSymbol))"
  shows "keeps h ((h @ [Proxy t opts])[b := Obj (propSet ps (KSym observedSymbol) (VBool True))])"
  unfolding keeps_def
proof (intro conjI allI impI)
  from resolve_SomeD[OF r] have b: "b < length h" and t: "t < length h" by simp_all
  let ?h' = "(h @ [Proxy t opts])[b := Obj (propSet ps (KSym observedSymbol) (VBool True))]"
  show "length h \<le> length ?h'" by simp
  {
    fix a t' opts' assume "a < length h" "h ! a = Proxy t' opts'"
    with o b show "?h' ! a = Proxy t' opts'" by (cases "a = b") (auto simp: nth_append)
  next
    fix a qs assume a: "a < length h" "h ! a = Obj qs"
    show "\<exists>qs'. ?h' ! a = Obj qs' \<and>
          (\<forall>y. truthy (propGet qs (KSym y)) \<longrightarrow> propGet qs' (KSym y) = propGet qs (KSym y))"
    proof (cases "a = b")
      case True
      with a o b u show ?thesis by (auto simp: propGet_propSet)
    next
      case False
      with a show ?thesis by (auto simp: nth_append)
    qed
  next
    fix a assume "length h \<le> a \<and> a < length ?h'"
    then have a: "a = length h" by simp
    with b have "?h' ! a = Proxy t opts" by (simp add: nth_append)
    moreover from b have "?h' ! b = Obj (propSet ps (KSym observedSymbol) (VBool True))"
      by simp
    ultimately show "\<exists>t' opts' b' qs qs'. ?h' ! a = Proxy t' opts' \<and> t' < length h \<and>
       resolve h t' = Some b' \<and> h ! b' = Obj qs \<and> \<not> truthy (propGet qs (KSym observedSymbol)) \<and>
       ?h' ! b' = Obj qs' \<and> truthy (propGet qs' (KSym observedSymbol))"
      using t r o u by (auto simp: propGet_propSet)
  }
qed

lemma callOnBeforeSet_heap:
  "callOnBeforeSet F options prop value valueBefore receiver st = Ok x st' \<Longrightarrow> heap st' = heap st"
  by (auto simp: callOnBeforeSet_def split: option.splits val.splits)

lemma callOnSet_heap:
  "callOnSet options prop value valueBefore receiver st = Ok x st' \<Longrightarrow> heap st' = heap st"
  by (auto simp: callOnSet_def split: option.splits val.splits)

lemma observersOf_heap: "observersOf v st = Ok x st' \<Longrightarrow> st' = st"
  by (cases v) auto

lemma informBefore_heap:
  "informBefore F regs prop v valueBefore receiver st = Ok x st' \<Longrightarrow> heap st' = heap st"
  by (induction regs arbitrary: v st) (auto split: if_splits)

lemma informAfter_heap:
  "informAfter regs prop value valueBefore receiver st = Ok x st' \<Longrightarrow> heap st' = heap st"
  by (induction regs arbitrary: st) (auto split: if_splits)

lemma js_get_heap: "js_get st a k r = Ok v st' \<Longrightarrow> heap st' = heap st"
  using js_get_OkD by blast

lemma js_get_node:
  "js_get st a k r = Ok v st' \<Longrightarrow> \<exists>b ps. node st a b ps \<and> v = propGet ps k"
  using js_get_OkD unfolding node_def by blast

lemma objectKeys_heap: "objectKeys st a = Ok x st' \<Longrightarrow> st' = st"
  by (auto simp: objectKeys_def split: option.splits cell.splits)

lemma initCallbackArray_keeps:
  assumes "initCallbackArray st a = Ok x st'"
  shows "keeps (heap st) (heap st')"
proof -
  from assms obtain v st1 where
    g: "js_get st a (KSym observedCallbacksSymbol) a = Ok v st1" and
    d: "(if \<not> truthy v then defineProp st1 a observedCallbacksSymbol (VRegs []) else Ok () st1) = Ok x st'"
    unfolding initCallbackArray_def by (rule andThenE)
  from js_get_node[OF g] obtain b ps where n: "node st a b ps" and v: "v = propGet ps (KSym observedCallbacksSymbol)"
    by blast
  from js_get_heap[OF g] have h: "heap st1 = heap st" .
  show ?thesis
  proof (cases "truthy v")
    case True
    with d h show ?thesis by simp
  next
    case False
    have n1: "node st1 a b ps" using n h by (simp add: node_def)
    from False d node_define(1)[OF n1, of observedCallbacksSymbol "VRegs []"]
    have "heap st' = (heap st)[b := Obj (propSet ps (KSym observedCallbacksSymbol) (VRegs []))]"
      by (auto simp: h)
    with keeps_define[OF n, of observedCallbacksSymbol "VRegs []"] False v show ?thesis by simp
  qed
qed

lemma isObserved_OkD:
  assumes "isObserved st a = Ok x st'"
  shows "heap st' = heap st \<and> (\<exists>b ps. node st a b ps \<and> x = truthy (propGet ps (KSym observedSymbol)))"
proof -
  from assms obtain v st1 where
    g: "js_get st a (KSym observedSymbol) a = Ok v st1" and d: "Ok (truthy v) st1 = Ok x st'"
    unfolding isObserved_def by (rule andThenE)
  from js_get_node[OF g] js_get_heap[OF g] d show ?thesis by auto
qed

lemma framedD1:
  "framed n F \<Longrightarrow> js_set n F st a (KStr s) v r = Ok xb st' \<Longrightarrow> keeps (heap st) (heap st')"
  unfolding framed_def by fast

lemma framedD2:
  "framed n F \<Longrightarrow> setHandler n F st t opts (KStr s) v r = Ok xb st' \<Longrightarrow> keeps (heap st) (heap st')"
  unfolding framed_def by fast

lemma framedD3:
  "framed n F \<Longrightarrow> mayObserve n F st v opts = Ok xv st' \<Longrightarrow> keeps (heap st) (heap st')"
  unfolding framed_def by fast

lemma framedD4:
  "framed n F \<Longrightarrow> observed n F st a opts = Ok xa st' \<Longrightarrow> keeps (heap st) (heap st')"
  unfolding framed_def by fast

lemma framedD5:
  "framed n F \<Longrightarrow> observeKeys n F st a ks opts = Ok xu st' \<Longrightarrow> keeps (heap st) (heap st')"
  unfolding framed_def by fast

lemmas framedD = framedD1 framedD2 framedD3 framedD4 framedD5

lemma js_set_frame:
  assumes IH: "framed n F" and ok: "js_set (Suc n) F st a (KStr s) v r = Ok x st'"
  shows "keeps (heap st) (heap st')"
proof (cases "cellAt st a")
  case None
  with ok show ?thesis by simp
next
  case (Some c)
  then have a: "a < length (heap st)" by (auto simp: cellAt_def split: if_splits)
  show ?thesis
  proof (cases c)
    case (Obj ps)
    with Some ok have "st' = log (Written a (KStr s) v) (setOwn st a (KStr s) v)" by simp
    with keeps_setOwn_str[OF a] show ?thesis by simp
  next
    case (Proxy t opts)
    with Some ok have "setHandler n F st t opts (KStr s) v r = Ok x st'" by simp
    from framedD(2)[OF IH this] show ?thesis .
  qed
qed

lemma setHandler_frame:
  assumes IH: "framed n F" and ok: "setHandler (Suc n) F st t opts (KStr s) v r = Ok x st'"
  shows "keeps (heap st) (heap st')"
proof -
  from ok[unfolded setHandler.simps] obtain valueBefore st1 where
    1: "js_get st t (KStr s) t = Ok valueBefore st1" and
    r1: "andThen (mayObserve n F st1 v opts) (\<lambda>value1 st2.
     andThen (callOnBeforeSet F opts (KStr s) value1 valueBefore r st2) (\<lambda>value2 st3.
     andThen (getObservers st3 t) (\<lambda>observers st4.
     andThen (observersOf observers st4) (\<lambda>regs st5.
     andThen (informBefore F regs (KStr s) value2 valueBefore r st5) (\<lambda>value3 st6.
     andThen (js_set n F st6 t (KStr s) value3 r) (\<lambda>b st7.
     andThen (informAfter regs (KStr s) value3 valueBefore r st7) (\<lambda>u st8.
     andThen (callOnSet opts (KStr s) value3 valueBefore r st8) (\<lambda>u2 st9.
     Ok True st9)))))))) = Ok x st'"
    by (rule andThenE)
  from r1 obtain value1 st2 where
    2: "mayObserve n F st1 v opts = Ok value1 st2" and
    r2: "andThen (callOnBeforeSet F opts (KStr s) value1 valueBefore r st2) (\<lambda>value2 st3.
     andThen (getObservers st3 t) (\<lambda>observers st4.
     andThen (observersOf observers st4) (\<lambda>regs st5.
     andThen (informBefore F regs (KStr s) value2 valueBefore r st5) (\<lambda>value3 st6.
     andThen (js_set n F st6 t (KStr s) value3 r) (\<lambda>b st7.
     andThen (informAfter regs (KStr s) value3 valueBefore r st7) (\<lambda>u st8.
     andThen (callOnSet opts (KStr s) value3 valueBefore r st8) (\<lambda>u2 st9.
     Ok True st9))))))) = Ok x st'"
    by (rule andThenE)
  from r2 obtain value2 st3 where
    3: "callOnBeforeSet F opts (KStr s) value1 valueBefore r st2 = Ok value2 st3" and
    r3: "andThen (getObservers st3 t) (\<lambda>observers st4.
     andThen (observersOf observers st4) (\<lambda>regs st5.
     andThen (informBefore F regs (KStr s) value2 valueBefore r st5) (\<lambda>value3 st6.
     andThen (js_set n F st6 t (KStr s) value3 r) (\<lambda>b st7.
     andThen (informAfter regs (KStr s) value3 valueBefore r st7) (\<lambda>u st8.
     andThen (callOnSet opts (KStr s) value3 valueBefore r st8) (\<lambda>u2 st9.
     Ok True st9)))))) = Ok x st'"
    by (rule andThenE)
  from r3 obtain observers st4 where
    4: "getObservers st3 t = Ok observers st4" and
    r4: "andThen (observersOf observers st4) (\<lambda>regs st5.
     andThen (informBefore F regs (KStr s) value2 valueBefore r st5) (\<lambda>value3 st6.
     andThen (js_set n F st6 t (KStr s) value3 r) (\<lambda>b st7.
     andThen (informAfter regs (KStr s) value3 valueBefore r st7) (\<lambda>u st8.
     andThen (callOnSet opts (KStr s) value3 valueBefore r st8) (\<lambda>u2 st9.
     Ok True st9))))) = Ok x st'"
    by (rule andThenE)
  from r4 obtain regs st5 where
    5: "observersOf observers st4 = Ok regs st5" and
    r5: "andThen (informBefore F regs (KStr s) value2 valueBefore r st5) (\<lambda>value3 st6.
     andThen (js_set n F st6 t (KStr s) value3 r) (\<lambda>b st7.
     andThen (informAfter regs (KStr s) value3 valueBefore r st7) (\<lambda>u st8.
     andThen (callOnSet opts (KStr s) value3 valueBefore r st8) (\<lambda>u2 st9.
     Ok True st9)))) = Ok x st'"
    by (rule andThenE)
  from r5 obtain value3 st6 where
    6: "informBefore F regs (KStr s) value2 valueBefore r st5 = Ok value3 st6" and
    r6: "andThen (js_set n F st6 t (KStr s) value3 r) (\<lambda>b st7.
     andThen (informAfter regs (KStr s) value3 valueBefore r st7) (\<lambda>u st8.
     andThen (callOnSet opts (KStr s) value3 valueBefore r st8) (\<lambda>u2 st9.
     Ok True st9))) = Ok x st'"
    by (rule andThenE)
  from r6 obtain b st7 where
    7: "js_set n F st6 t (KStr s) value3 r = Ok b st7" and
    r7: "andThen (informAfter regs (KStr s) value3 valueBefore r st7) (\<lambda>u st8.
     andThen (callOnSet opts (KStr s) value3 valueBefore r st8) (\<lambda>u2 st9.
     Ok True st9)) = Ok x st'"
    by (rule andThenE)
  from r7 obtain u st8 where
    8: "informAfter regs (KStr s) value3 valueBefore r st7 = Ok u st8" and
    r8: "andThen (callOnSet opts (KStr s) value3 valueBefore r st8) (\<lambda>u2 st9. Ok True st9) = Ok x st'"
    by (rule andThenE)
  from r8 obtain u2 where
    9: "callOnSet opts (KStr s) value3 valueBefore r st8 = Ok u2 st'"
    by (auto elim: andThenE)
  have h1: "heap st1 = heap st" by (rule js_get_heap[OF 1])
  have k2: "keeps (heap st1) (heap st2)" by (rule framedD(3)[OF IH 2])
  have h3: "heap st3 = heap st2" by (rule callOnBeforeSet_heap[OF 3])
  have h4: "heap st4 = heap st3" using 4 unfolding getObservers_def by (rule js_get_heap)
  have h5: "st5 = st4" by (rule observersOf_heap[OF 5])
  have h6: "heap st6 = heap st5" by (rule informBefore_heap[OF 6])
  have k7: "keeps (heap st6) (heap st7)" by (rule framedD(1)[OF IH 7])
  have h8: "heap st8 = heap st7" by (rule informAfter_heap[OF 8])
  have h9: "heap st' = heap st8" by (rule callOnSet_heap[OF 9])
  from k2 k7 have "keeps (heap st) (heap st7)"
    unfolding h1 h6 h5 h4 h3 by (rule keeps_trans)
  then show ?thesis by (simp add: h9 h8)
qed

lemma mayObserve_frame:
  assumes IH: "framed n F" and ok: "mayObserve (Suc n) F st v opts = Ok x st'"
  shows "keeps (heap st) (heap st')"
proof (cases v)
  case (VRef a)
  with ok obtain w where "observed n F st a (opts\<lparr>deep := Some (VBool False)\<rparr>) = Ok w st'"
    by (auto elim: andThenE)
  from framedD(4)[OF IH this] show ?thesis .
qed (use ok in auto)

lemma resolve_append: "a < length h \<Longrightarrow> resolve (h @ xs) a = resolve h a"
proof (induction h a rule: resolve.induct)
  case (1 h a)
  show ?case
  proof (cases "h ! a")
    case (Obj ps)
    with "1.prems" show ?thesis by (simp add: resolve_Obj nth_append)
  next
    case (Proxy t opts)
    show ?thesis
    proof (cases "t < a")
      case True
      with "1.prems" have "t < length h" by simp
      from "1.IH"[OF "1.prems" Proxy True this] True Proxy "1.prems"
      show ?thesis by (simp add: resolve_Proxy nth_append)
    next
      case False
      with Proxy "1.prems" show ?thesis by (simp add: resolve_Proxy nth_append)
    qed
  qed
qed

lemma newProxy_mark:
  assumes n: "node st a b ps"
  shows "andThen (newProxy st a opts) (\<lambda>proxy st5.
           andThen (defineProp st5 a observedSymbol (VBool True)) (\<lambda>u3 st6. Ok proxy st6)) =
         Ok (length (heap st))
            (st\<lparr>heap := (heap st @ [Proxy a opts])[b := Obj (propSet ps (KSym observedSymbol) (VBool True))]\<rparr>)"
proof -
  from n have rs: "resolve (heap st) a = Some b" and ob: "heap st ! b = Obj ps"
    by (simp_all add: node_def)
  from resolve_SomeD[OF rs] have bl: "b < length (heap st)" and al: "a < length (heap st)" by simp_all
  let ?st5 = "st\<lparr>heap := heap st @ [Proxy a opts]\<rparr>"
  have "node ?st5 a b ps"
    using rs ob bl al by (simp add: node_def resolve_append nth_append)
  from node_define(1)[OF this, of observedSymbol "VBool True"]
  show ?thesis by (simp add: newProxy_def)
qed

lemma observed_frame:
  assumes IH: "framed n F" and ok: "observed (Suc n) F st a opts = Ok x st'"
  shows "keeps (heap st) (heap st')"
proof -
  let ?o = "spread defaultOptions opts"
  from ok[unfolded observed.simps] obtain u st1 where
    1: "initCallbackArray st a = Ok u st1" and
    r1: "andThen (objectKeys st1 a) (\<lambda>keys st2.
     andThen (observeKeys n F st2 a keys ?o) (\<lambda>u2 st3.
     andThen (isObserved st3 a) (\<lambda>b st4.
       if b then Ok a st4
       else
         andThen (newProxy st4 a ?o) (\<lambda>proxy st5.
         andThen (defineProp st5 a observedSymbol (VBool True)) (\<lambda>u3 st6.
         Ok proxy st6))))) = Ok x st'"
    by (rule andThenE)
  from r1 obtain keys st2 where
    2: "objectKeys st1 a = Ok keys st2" and
    r2: "andThen (observeKeys n F st2 a keys ?o) (\<lambda>u2 st3.
     andThen (isObserved st3 a) (\<lambda>b st4.
       if b then Ok a st4
       else
         andThen (newProxy st4 a ?o) (\<lambda>proxy st5.
         andThen (defineProp st5 a observedSymbol (VBool True)) (\<lambda>u3 st6.
         Ok proxy st6)))) = Ok x st'"
    by (rule andThenE)
  from r2 obtain u2 st3 where
    3: "observeKeys n F st2 a keys ?o = Ok u2 st3" and
    r3: "andThen (isObserved st3 a) (\<lambda>b st4.
       if b then Ok a st4
       else
         andThen (newProxy st4 a ?o) (\<lambda>proxy st5.
         andThen (defineProp st5 a observedSymbol (VBool True)) (\<lambda>u3 st6.
         Ok proxy st6))) = Ok x st'"
    by (rule andThenE)
  from r3 obtain b st4 where
    4: "isObserved st3 a = Ok b st4" and
    r4: "(if b then Ok a st4
       else
         andThen (newProxy st4 a ?o) (\<lambda>proxy st5.
         andThen (defineProp st5 a observedSymbol (VBool True)) (\<lambda>u3 st6.
         Ok proxy st6))) = Ok x st'"
    by (rule andThenE)
  have k1: "keeps (heap st) (heap st1)" by (rule initCallbackArray_keeps[OF 1])
  have h2: "st2 = st1" by (rule objectKeys_heap[OF 2])
  have k3: "keeps (heap st2) (heap st3)" by (rule framedD(5)[OF IH 3])
  from isObserved_OkD[OF 4] obtain bs ps where
    h4: "heap st4 = heap st3" and n: "node st3 a bs ps" and b: "b = truthy (propGet ps (KSym observedSymbol))"
    by blast
  have k13: "keeps (heap st) (heap st3)" using k1 k3 unfolding h2 by (rule keeps_trans)
  show ?thesis
  proof (cases b)
    case True
    with r4 h4 k13 show ?thesis by simp
  next
    case False
    have n4: "node st4 a bs ps" using n h4 by (simp add: node_def)
    from False r4 newProxy_mark[OF n4, of ?o]
    have "heap st' = (heap st3 @ [Proxy a ?o])[bs := Obj (propSet ps (KSym observedSymbol) (VBool True))]"
      by (auto simp: h4)
    moreover have "keeps (heap st3) ((heap st3 @ [Proxy a ?o])[bs := Obj (propSet ps (KSym observedSymbol) (VBool True))])"
      using n False b by (intro keeps_newProxy) (simp_all add: node_def)
    ultimately show ?thesis using k13 keeps_trans by simp
  qed
qed

lemma observeKeys_frame:
  assumes IH: "framed n F" and ok: "observeKeys (Suc n) F st a ks opts = Ok x st'"
  shows "keeps (heap st) (heap st')"
proof (cases ks)
  case Nil
  with ok show ?thesis by simp
next
  case (Cons key keys)
  from ok[unfolded Cons observeKeys.simps] obtain v st1 where
    1: "js_get st a (KStr key) a = Ok v st1" and
    r1: "andThen (mayObserve n F st1 v opts) (\<lambda>v' st2.
     andThen (js_set n F st2 a (KStr key) v' a) (\<lambda>b st3.
     observeKeys n F st3 a keys opts)) = Ok x st'"
    by (rule andThenE)
  from r1 obtain v' st2 where
    2: "mayObserve n F st1 v opts = Ok v' st2" and
    r2: "andThen (js_set n F st2 a (KStr key) v' a) (\<lambda>b st3.
     observeKeys n F st3 a keys opts) = Ok x st'"
    by (rule andThenE)
  from r2 obtain b st3 where
    3: "js_set n F st2 a (KStr key) v' a = Ok b st3" and
    4: "observeKeys n F st3 a keys opts = Ok x st'"
    by (rule andThenE)
  have h1: "heap st1 = heap st" by (rule js_get_heap[OF 1])
  have k2: "keeps (heap st1) (heap st2)" by (rule framedD(3)[OF IH 2])
  have k3: "keeps (heap st2) (heap st3)" by (rule framedD(1)[OF IH 3])
  have k4: "keeps (heap st3) (heap st')" by (rule framedD(5)[OF IH 4])
  from k2 k3 k4 show ?thesis unfolding h1 by (blast intro: keeps_trans)
qed

lemma framed_all: "framed n F"
proof (induction n)
  case 0
  show ?case by (simp add: framed_def)
next
  case (Suc n)
  show ?case
    unfolding framed_def
    using js_set_frame[OF Suc] setHandler_frame[OF Suc] mayObserve_frame[OF Suc]
      observed_frame[OF Suc] observeKeys_frame[OF Suc]
    by blast
qed

lemmas frame = framedD[OF framed_all]

section \<open>More fuel changes nothing\<close>

text \<open>A call that returns within some depth returns the same value and state within every
  larger depth: the fuel only bounds the depth, it is not part of the result.\<close>

lemma observed_SucD:
  assumes "observed (Suc n) F st a opts = Ok x st'"
  shows "\<exists>u st1 keys u2 st3 b st4.
           initCallbackArray st a = Ok u st1 \<and>
           objectKeys st1 a = Ok keys st1 \<and>
           observeKeys n F st1 a keys (spread defaultOptions opts) = Ok u2 st3 \<and>
           isObserved st3 a = Ok b st4 \<and>
           (if b then Ok a st4
            else andThen (newProxy st4 a (spread defaultOptions opts)) (\<lambda>proxy st5.
                 andThen (defineProp st5 a observedSymbol (VBool True)) (\<lambda>u3 st6. Ok proxy st6))) =
             Ok x st'"
proof -
  let ?o = "spread defaultOptions opts"
  from assms[unfolded observed.simps] obtain u st1 where
    1: "initCallbackArray st a = Ok u st1" and
    r1: "andThen (objectKeys st1 a) (\<lambda>keys st2.
     andThen (observeKeys n F st2 a keys ?o) (\<lambda>u2 st3.
     andThen (isObserved st3 a) (\<lambda>b st4.
       if b then Ok a st4
       else
         andThen (newProxy st4 a ?o) (\<lambda>proxy st5.
         andThen (defineProp st5 a observedSymbol (VBool True)) (\<lambda>u3 st6.
         Ok proxy st6))))) = Ok x st'"
    by (rule andThenE)
  from r1 obtain keys st2 where
    2: "objectKeys st1 a = Ok keys st2" and
    r2: "andThen (observeKeys n F st2 a keys ?o) (\<lambda>u2 st3.
     andThen (isObserved st3 a) (\<lambda>b st4.
       if b then Ok a st4
       else
         andThen (newProxy st4 a ?o) (\<lambda>proxy st5.
         andThen (defineProp st5 a observedSymbol (VBool True)) (\<lambda>u3 st6.
         Ok proxy st6)))) = Ok x st'"
    by (rule andThenE)
  from r2 obtain u2 st3 where
    3: "observeKeys n F st2 a keys ?o = Ok u2 st3" and
    r3: "andThen (isObserved st3 a) (\<lambda>b st4.
       if b then Ok a st4
       else
         andThen (newProxy st4 a ?o) (\<lambda>proxy st5.
         andThen (defineProp st5 a observedSymbol (VBool True)) (\<lambda>u3 st6.
         Ok proxy st6))) = Ok x st'"
    by (rule andThenE)
  from r3 obtain b st4 where
    4: "isObserved st3 a = Ok b st4" and
    r4: "(if b then Ok a st4
       else
         andThen (newProxy st4 a ?o) (\<lambda>proxy st5.
         andThen (defineProp st5 a observedSymbol (VBool True)) (\<lambda>u3 st6.
         Ok proxy st6))) = Ok x st'"
    by (rule andThenE)
  have h2: "st2 = st1" by (rule objectKeys_heap[OF 2])
  from 1 2 3 4 r4 show ?thesis unfolding h2 by blast
qed

lemma monotoneD1:
  "monotone n F \<Longrightarrow> js_set n F st a k v r = Ok x st' \<Longrightarrow> js_set (Suc n) F st a k v r = Ok x st'"
  unfolding monotone_def by fast

lemma monotoneD2:
  "monotone n F \<Longrightarrow> setHandler n F st t opts k v r = Ok x st' \<Longrightarrow>
   setHandler (Suc n) F st t opts k v r = Ok x st'"
  unfolding monotone_def by fast

lemma monotoneD3:
  "monotone n F \<Longrightarrow> mayObserve n F st v opts = Ok x st' \<Longrightarrow> mayObserve (Suc n) F st v opts = Ok x st'"
  unfolding monotone_def by fast

lemma monotoneD4:
  "monotone n F \<Longrightarrow> observed n F st a opts = Ok x st' \<Longrightarrow> observed (Suc n) F st a opts = Ok x st'"
  unfolding monotone_def by fast

lemma monotoneD5:
  "monotone n F \<Longrightarrow> observeKeys n F st a ks opts = Ok x st' \<Longrightarrow>
   observeKeys (Suc n) F st a ks opts = Ok x st'"
  unfolding monotone_def by fast

lemma js_set_mono:
  assumes IH: "monotone n F" and ok: "js_set (Suc n) F st a k v r = Ok x st'"
  shows "js_set (Suc (Suc n)) F st a k v r = Ok x st'"
proof (cases "cellAt st a")
  case None
  with ok show ?thesis by simp
next
  case (Some c)
  show ?thesis
  proof (cases c)
    case (Obj ps)
    with Some ok show ?thesis by simp
  next
    case (Proxy t opts)
    with Some ok have "setHandler n F st t opts k v r = Ok x st'" by simp
    from monotoneD2[OF IH this] Some Proxy show ?thesis
      by (simp del: setHandler.simps)
  qed
qed

lemma setHandler_mono:
  assumes IH: "monotone n F" and ok: "setHandler (Suc n) F st t opts k v r = Ok x st'"
  shows "setHandler (Suc (Suc n)) F st t opts k v r = Ok x st'"
proof -
  from ok obtain valueBefore st1 value1 st2 value2 st3 observers st4 regs st5 value3 st6 b st7 u st8 u2
    where
    1: "js_get st t k t = Ok valueBefore st1" and
    2: "mayObserve n F st1 v opts = Ok value1 st2" and
    3: "callOnBeforeSet F opts k value1 valueBefore r st2 = Ok value2 st3" and
    4: "getObservers st3 t = Ok observers st4" and
    5: "observersOf observers st4 = Ok regs st5" and
    6: "informBefore F regs k value2 valueBefore r st5 = Ok value3 st6" and
    7: "js_set n F st6 t k value3 r = Ok b st7" and
    8: "informAfter regs k value3 valueBefore r st7 = Ok u st8" and
    9: "callOnSet opts k value3 valueBefore r st8 = Ok u2 st'" and
    10: "x = True"
    by (auto simp: andThen_eq_Ok simp del: js_set.simps mayObserve.simps)
  show ?thesis
    unfolding setHandler.simps 1 andThen_simps monotoneD3[OF IH 2] 3 4 5 6 monotoneD1[OF IH 7] 8 9 10
    by (rule refl)
qed

lemma mayObserve_mono:
  assumes IH: "monotone n F" and ok: "mayObserve (Suc n) F st v opts = Ok x st'"
  shows "mayObserve (Suc (Suc n)) F st v opts = Ok x st'"
proof (cases v)
  case (VRef a)
  with ok obtain w where o: "observed n F st a (opts\<lparr>deep := Some (VBool False)\<rparr>) = Ok w st'"
    and x: "x = VRef w"
    by (auto simp: andThen_eq_Ok)
  show ?thesis
    by (simp add: VRef monotoneD4[OF IH o] x del: observed.simps)
qed (use ok in auto)

lemma observed_mono:
  assumes IH: "monotone n F" and ok: "observed (Suc n) F st a opts = Ok x st'"
  shows "observed (Suc (Suc n)) F st a opts = Ok x st'"
proof -
  from observed_SucD[OF ok] obtain u st1 keys u2 st3 b st4 where
    1: "initCallbackArray st a = Ok u st1" and
    2: "objectKeys st1 a = Ok keys st1" and
    3: "observeKeys n F st1 a keys (spread defaultOptions opts) = Ok u2 st3" and
    4: "isObserved st3 a = Ok b st4" and
    5: "(if b then Ok a st4
            else andThen (newProxy st4 a (spread defaultOptions opts)) (\<lambda>proxy st5.
                 andThen (defineProp st5 a observedSymbol (VBool True)) (\<lambda>u3 st6. Ok proxy st6))) =
             Ok x st'"
    by blast
  show ?thesis
    unfolding observed.simps 1 2 andThen_simps monotoneD5[OF IH 3] 4 by (rule 5)
qed

lemma observeKeys_mono:
  assumes IH: "monotone n F" and ok: "observeKeys (Suc n) F st a ks opts = Ok x st'"
  shows "observeKeys (Suc (Suc n)) F st a ks opts = Ok x st'"
proof (cases ks)
  case Nil
  with ok show ?thesis by simp
next
  case (Cons key keys)
  from ok[unfolded Cons] obtain v st1 v' st2 b st3 where
    1: "js_get st a (KStr key) a = Ok v st1" and
    2: "mayObserve n F st1 v opts = Ok v' st2" and
    3: "js_set n F st2 a (KStr key) v' a = Ok b st3" and
    4: "observeKeys n F st3 a keys opts = Ok x st'"
    by (auto simp: andThen_eq_Ok simp del: js_set.simps mayObserve.simps)
  show ?thesis
    unfolding Cons observeKeys.simps 1 andThen_simps monotoneD3[OF IH 2] monotoneD1[OF IH 3]
    by (rule monotoneD5[OF IH 4])
qed

lemma monotone_all: "monotone n F"
proof (induction n)
  case 0
  show ?case by (simp add: monotone_def)
next
  case (Suc n)
  show ?case
    unfolding monotone_def
    using js_set_mono[OF Suc] setHandler_mono[OF Suc] mayObserve_mono[OF Suc]
      observed_mono[OF Suc] observeKeys_mono[OF Suc]
    by blast
qed

lemma js_set_more_fuel:
  "js_set n F st a k v r = Ok x st' \<Longrightarrow> n \<le> m \<Longrightarrow> js_set m F st a k v r = Ok x st'"
  by (induction m) (auto simp: le_Suc_eq dest: monotoneD1[OF monotone_all] simp del: js_set.simps)

lemma observed_more_fuel:
  "observed n F st a opts = Ok x st' \<Longrightarrow> n \<le> m \<Longrightarrow> observed m F st a opts = Ok x st'"
  by (induction m) (auto simp: le_Suc_eq dest: monotoneD4[OF monotone_all] simp del: observed.simps)



lemma observed_fuel_unique:
  assumes "observed n F st a opts = Ok x st1" and "observed m F st a opts = Ok y st2"
  shows "y = x \<and> st2 = st1"
proof (cases "n \<le> m")
  case True
  from observed_more_fuel[OF assms(1) True] assms(2) show ?thesis by simp
next
  case False
  then have "m \<le> n" by simp
  from observed_more_fuel[OF assms(2) this] assms(1) show ?thesis by simp
qed

lemma js_set_fuel_unique:
  assumes "js_set n F st a k v r = Ok x st1" and "js_set m F st a k v r = Ok y st2"
  shows "y = x \<and> st2 = st1"
proof (cases "n \<le> m")
  case True
  from js_set_more_fuel[OF assms(1) True] assms(2) show ?thesis by simp
next
  case False
  then have "m \<le> n" by simp
  from js_set_more_fuel[OF assms(2) this] assms(1) show ?thesis by simp
qed

section \<open>A write through a wrapper\<close>

lemma pipeline_simps [simp]:
  "pipeline F [] k v vb r = v"
  "pipeline F (f # fs) k v vb r = pipeline F fs k (F f k v vb (VRef r)) vb r"
  by (simp_all add: pipeline_def)

lemma pipeline_append:
  "pipeline F (fs @ gs) k v vb r = pipeline F gs k (pipeline F fs k v vb r) vb r"
  by (simp add: pipeline_def)

lemma pipelineCalls_append:
  "pipelineCalls F (fs @ gs) k v vb r =
     pipelineCalls F fs k v vb r @ pipelineCalls F gs k (pipeline F fs k v vb r) vb r"
  by (induction fs arbitrary: v) simp_all

lemma length_pipelineCalls [simp]: "length (pipelineCalls F fs k v vb r) = length fs"
  by (induction fs arbitrary: v) simp_all

lemma callee_pipelineCalls [simp]: "map callee (pipelineCalls F fs k v vb r) = map Some fs"
  by (induction fs arbitrary: v) simp_all

lemma callee_notifications [simp]: "map callee (notifications fs k v vb r) = map Some fs"
  by (simp add: notifications_def comp_def)

lemma pipelineCalls_nth:
  "i < length fs \<Longrightarrow>
   pipelineCalls F fs k v vb r ! i = Called (fs ! i) k (pipeline F (take i fs) k v vb r) vb (VRef r)"
proof (induction fs arbitrary: v i)
  case Nil
  then show ?case by simp
next
  case (Cons f fs)
  then show ?case by (cases i) simp_all
qed

lemma informBefore_eq:
  "informBefore F regs k v vb r st =
     Ok (pipeline F (registered Before regs) k v vb r)
        (st\<lparr>trace := trace st @ pipelineCalls F (registered Before regs) k v vb r\<rparr>)"
proof (induction regs arbitrary: v st)
  case Nil
  show ?case by (simp add: registered_def)
next
  case (Cons a regs)
  show ?case
  proof (cases "phase a = Before")
    case True
    have "registered Before (a # regs) = cb a # registered Before regs"
      using True by (simp add: registered_def)
    then show ?thesis using True Cons[of "F (cb a) k v vb (VRef r)" "log (Called (cb a) k v vb (VRef r)) st"]
      by (simp add: log_def)
  next
    case False
    have "registered Before (a # regs) = registered Before regs"
      using False by (simp add: registered_def)
    then show ?thesis using False Cons[of v st] by simp
  qed
qed

lemma informAfter_eq:
  "informAfter regs k v vb r st =
     Ok () (st\<lparr>trace := trace st @ notifications (registered After regs) k v vb r\<rparr>)"
proof (induction regs arbitrary: st)
  case Nil
  show ?case by (simp add: registered_def notifications_def)
next
  case (Cons a regs)
  show ?case
  proof (cases "phase a = After")
    case True
    have "registered After (a # regs) = cb a # registered After regs"
      using True by (simp add: registered_def)
    then show ?thesis using True Cons[of "log (Called (cb a) k v vb (VRef r)) st"]
      by (simp add: log_def notifications_def)
  next
    case False
    have "registered After (a # regs) = registered After regs"
      using False by (simp add: registered_def)
    then show ?thesis using False Cons[of st] by simp
  qed
qed

lemma callOnBeforeSet_eq:
  "callOnBeforeSet F options k v vb r st =
     Ok (pipeline F (globalBefore options) k v vb r)
        (st\<lparr>trace := trace st @ pipelineCalls F (globalBefore options) k v vb r\<rparr>)"
  by (auto simp: callOnBeforeSet_def globalBefore_def log_def split: option.splits val.splits)

lemma callOnSet_eq:
  "callOnSet options k v vb r st =
     Ok () (st\<lparr>trace := trace st @ notifications (globalAfter options) k v vb r\<rparr>)"
  by (auto simp: callOnSet_def globalAfter_def log_def notifications_def split: option.splits val.splits)

lemma cellAt_SomeD: "cellAt st a = Some c \<Longrightarrow> a < length (heap st) \<and> heap st ! a = c"
  by (auto simp: cellAt_def split: if_splits)

lemma cellAt_trace [simp]: "cellAt (st\<lparr>trace := x\<rparr>) a = cellAt st a"
  by (simp add: cellAt_def)

lemma js_get_plain: "cellAt st a = Some (Obj ps) \<Longrightarrow> js_get st a k r = Ok (propGet ps k) st"
  by (subst js_get.simps) simp

lemma keeps_cellAt_Obj:
  assumes "keeps (heap st) (heap st')" and "cellAt st a = Some (Obj ps)"
  shows "\<exists>ps'. cellAt st' a = Some (Obj ps') \<and>
           (\<forall>y. truthy (propGet ps (KSym y)) \<longrightarrow> propGet ps' (KSym y) = propGet ps (KSym y))"
proof -
  from assms(2) have a: "a < length (heap st)" and o: "heap st ! a = Obj ps"
    by (auto simp: cellAt_def split: if_splits)
  from keeps_lengthD[OF assms(1)] a have "a < length (heap st')" by simp
  with keeps_ObjD[OF assms(1) a o] show ?thesis by (auto simp: cellAt_def)
qed


text \<open>The state after a write of \<open>v\<close> through a wrapper in front of the plain object \<open>t\<close>,
  from the state \<open>st2\<close> that wrapping the incoming value left.\<close>

lemma setHandler_plain:
  assumes t: "cellAt st t = Some (Obj ps)"
    and regs: "propGet ps (KSym observedCallbacksSymbol) = VRegs regs"
    and w: "mayObserve n F st v options = Ok v1 st2"
  shows "\<exists>ps2. cellAt st2 t = Some (Obj ps2) \<and>
           propGet ps2 (KSym observedCallbacksSymbol) = VRegs regs \<and>
           setHandler (Suc n) F st t options k v receiver =
             Ok True (written F st2 t ps2 options regs k v1 (propGet ps k) receiver)"
proof -
  let ?sym = "KSym observedCallbacksSymbol"
  from w obtain m where n: "n = Suc m" by (cases n) auto
  have k: "keeps (heap st) (heap st2)" by (rule frame(3)[OF w])
  from keeps_cellAt_Obj[OF k t] regs obtain ps2 where
    t2: "cellAt st2 t = Some (Obj ps2)" and regs2: "propGet ps2 ?sym = VRegs regs"
    by fastforce
  from cellAt_SomeD[OF t2] have o2: "heap st2 ! t = Obj ps2" by simp
  have obs: "js_get (st2\<lparr>trace := tr\<rparr>) t ?sym t = Ok (VRegs regs) (st2\<lparr>trace := tr\<rparr>)" for tr
    using js_get_plain[of "st2\<lparr>trace := tr\<rparr>" t ps2 ?sym t] t2 regs2 by simp
  have set: "js_set n F (st2\<lparr>trace := tr\<rparr>) t k x receiver =
      Ok True (st2\<lparr>heap := (heap st2)[t := Obj (propSet ps2 k x)], trace := tr @ [Written t k x]\<rparr>)"
    for tr x
    unfolding n using t2 o2 by (simp add: setOwn_def log_def)
  have "setHandler (Suc n) F st t options k v receiver =
          Ok True (written F st2 t ps2 options regs k v1 (propGet ps k) receiver)"
    by (simp add: js_get_plain[OF t] w callOnBeforeSet_eq getObservers_def obs informBefore_eq set
        informAfter_eq callOnSet_eq written_def beforeCallbacks_def afterCallbacks_def
        pipeline_append pipelineCalls_append notifications_def del: js_set.simps)
  then show ?thesis using t2 regs2 by blast
qed

lemma write_through_wrapper:
  assumes p: "cellAt st p = Some (Proxy t options)"
    and t: "cellAt st t = Some (Obj ps)"
    and regs: "propGet ps (KSym observedCallbacksSymbol) = VRegs regs"
    and w: "mayObserve n F st v options = Ok v1 st2"
    and N: "Suc (Suc n) \<le> N"
  shows "\<exists>ps2. cellAt st2 t = Some (Obj ps2) \<and>
           propGet ps2 (KSym observedCallbacksSymbol) = VRegs regs \<and>
           js_set N F st p k v receiver =
             Ok True (written F st2 t ps2 options regs k v1 (propGet ps k) receiver)"
proof -
  from setHandler_plain[OF t regs w, of k receiver] obtain ps2 where
    1: "cellAt st2 t = Some (Obj ps2)" "propGet ps2 (KSym observedCallbacksSymbol) = VRegs regs" and
    2: "setHandler (Suc n) F st t options k v receiver =
          Ok True (written F st2 t ps2 options regs k v1 (propGet ps k) receiver)"
    by blast
  from 2 p have "js_set (Suc (Suc n)) F st p k v receiver =
          Ok True (written F st2 t ps2 options regs k v1 (propGet ps k) receiver)"
    by (simp del: setHandler.simps)
  from js_set_more_fuel[OF this N] 1 show ?thesis by blast
qed

section \<open>Registering and removing listeners\<close>

text \<open>
  Claim C8. \<^verbatim>\<open>onSet\<close> on a node (a plain object or a wrapper over it) whose registry is an
  array, or is still missing: a callback that is not a function makes it throw
  \<^verbatim>\<open>'callback must be a function'\<close> and leaves the state as it was; a function \<open>f\<close> makes it
  return, and the registry of the underlying object is then the old one with the one
  registration \<open>(f, phase)\<close> added at the end, whatever the old registry holds (also
  registrations of \<open>f\<close> itself); the phase is \<open>After\<close> when the argument is omitted. Nothing
  else in the store changes.
\<close>

theorem onSet_registers:
  assumes "node st object b ps"
    and "propGet ps (KSym observedCallbacksSymbol) = VRegs regs \<or>
         (\<not> truthy (propGet ps (KSym observedCallbacksSymbol)) \<and> regs = [])"
  shows "(\<not> isFunction callback \<longrightarrow>
            onSet st object callback phase_arg = Throw CallbackIsNotAFunction st) \<and>
         (\<forall>f. callback = VFun f \<longrightarrow>
            (\<exists>st'. onSet st object callback phase_arg = Ok () st' \<and>
               heap st' = (heap st)[b := Obj (propSet ps (KSym observedCallbacksSymbol)
                 (VRegs (regs @ [\<lparr>cb = f, phase = (case phase_arg of None \<Rightarrow> After | Some p \<Rightarrow> p)\<rparr>])))]))"
proof (intro conjI allI impI)
  assume "\<not> isFunction callback"
  then show "onSet st object callback phase_arg = Throw CallbackIsNotAFunction st"
    by (cases callback) (simp_all add: onSet_def)
next
  fix f assume cb: "callback = VFun f"
  let ?sym = "KSym observedCallbacksSymbol"
  let ?r = "\<lparr>cb = f, phase = (case phase_arg of None \<Rightarrow> After | Some p \<Rightarrow> p)\<rparr>"
  from assms(1) have res: "resolve (heap st) object = Some b" and ob: "heap st ! b = Obj ps"
    by (simp_all add: node_def)
  from resolve_SomeD[OF res] have b: "b < length (heap st)" by simp
  define ps1 where "ps1 = (if truthy (propGet ps ?sym) then ps else propSet ps ?sym (VRegs []))"
  from initCallbackArray_node[OF assms(1)] obtain st1 where
    i: "initCallbackArray st object = Ok () st1" and
    h1: "heap st1 = (if truthy (propGet ps ?sym) then heap st else (heap st)[b := Obj (propSet ps ?sym (VRegs []))])"
    by blast
  have h1': "heap st1 = (heap st)[b := Obj ps1]"
    using h1 ob list_update_id[of "heap st" b] by (auto simp: ps1_def)
  have g1: "propGet ps1 ?sym = VRegs regs"
    using assms(2) by (auto simp: ps1_def propGet_propSet)
  have set1: "propSet ps1 ?sym v = propSet ps ?sym v" for v
    by (simp add: ps1_def)
  have n1: "node st1 object b ps1"
    using resolve_update_Obj[OF b ob, of ps1 object] res b by (simp add: node_def h1')
  from pushRegistration_node[OF n1 g1, of ?r] obtain st2 where
    p: "pushRegistration st1 object ?r = Ok () st2" and
    h2: "heap st2 = (heap st)[b := Obj (propSet ps ?sym (VRegs (regs @ [?r])))]"
    by (auto simp: h1' set1)
  let ?ps2 = "propSet ps ?sym (VRegs (regs @ [?r]))"
  have n2: "node st2 object b ?ps2"
    using resolve_update_Obj[OF b ob, of ?ps2 object] res b by (simp add: node_def h2)
  from node_get[OF n2, of ?sym object] obtain st3 where
    g: "js_get st2 object ?sym object = Ok (VRegs (regs @ [?r])) st3" and h3: "heap st3 = heap st2"
    by (auto simp: propGet_propSet)
  have n3: "node st3 object b ?ps2" using n2 h3 by (simp add: node_def)
  have d: "defineProp st3 object observedCallbacksSymbol (VRegs (regs @ [?r])) =
           Ok () (st3\<lparr>heap := (heap st3)[b := Obj (propSet ?ps2 ?sym (VRegs (regs @ [?r])))]\<rparr>)"
    by (rule node_define(1)[OF n3])
  have "onSet st object callback phase_arg =
        Ok () (st3\<lparr>heap := (heap st3)[b := Obj (propSet ?ps2 ?sym (VRegs (regs @ [?r])))]\<rparr>)"
    by (simp add: onSet_def cb i p g d)
  then show "\<exists>st'. onSet st object callback phase_arg = Ok () st' \<and>
               heap st' = (heap st)[b := Obj ?ps2]"
    by (simp add: h3 h2)
qed

theorem onSet_registers_witness:
  "node exState 1 0 exProps \<and>
   propGet exProps (KSym observedCallbacksSymbol) = VRegs exRegistry \<and>
   onSet exState 1 (VStr ''f'') None = Throw CallbackIsNotAFunction exState \<and>
   (\<exists>st'. onSet exState 1 (VFun 5) None = Ok () st' \<and>
      heap st' = (heap exState)[0 := Obj (propSet exProps (KSym observedCallbacksSymbol)
        (VRegs (exRegistry @ [\<lparr>cb = 5, phase = After\<rparr>])))])"
proof -
  have n: "node exState 1 0 exProps" by code_simp
  have g: "propGet exProps (KSym observedCallbacksSymbol) = VRegs exRegistry" by code_simp
  have g': "propGet exProps (KSym observedCallbacksSymbol) = VRegs exRegistry \<or>
         (\<not> truthy (propGet exProps (KSym observedCallbacksSymbol)) \<and> exRegistry = [])"
    using g by simp
  from onSet_registers[OF n g', of "VStr ''f''" None] onSet_registers[OF n g', of "VFun 5" None] n g
  show ?thesis by simp
qed

text \<open>
  Claim C7. \<^verbatim>\<open>offSet\<close> on a node whose underlying object has the properties \<open>ps\<close>:
  without a callback it returns and the registry is the empty array, whatever was under
  the symbol before (nothing, an empty array, anything else); with a function \<open>f\<close> and, under
  the symbol, something that is not an array (also nothing at all) it throws
  \<^verbatim>\<open>'callback is not registered'\<close> and the store is as before; with a function \<open>f\<close> and a
  registry \<open>regs\<close> it returns and the registry is \<open>regs\<close> without the registrations of \<open>f\<close>, of
  either phase, the others in the order they had.
\<close>

theorem offSet_removes:
  assumes "node st object b ps"
  shows "(callback = VUndefined \<longrightarrow>
            offSet st object callback =
              Ok () (st\<lparr>heap := (heap st)[b := Obj (propSet ps (KSym observedCallbacksSymbol) (VRegs []))]\<rparr>)) \<and>
         (\<forall>f. callback = VFun f \<and> \<not> isArray (propGet ps (KSym observedCallbacksSymbol)) \<longrightarrow>
            (\<exists>st1. offSet st object callback = Throw CallbackIsNotRegistered st1 \<and> heap st1 = heap st)) \<and>
         (\<forall>f regs. callback = VFun f \<and> propGet ps (KSym observedCallbacksSymbol) = VRegs regs \<longrightarrow>
            (\<exists>st'. offSet st object callback = Ok () st' \<and>
               heap st' = (heap st)[b := Obj (propSet ps (KSym observedCallbacksSymbol)
                 (VRegs (filter (\<lambda>r. cb r \<noteq> f) regs)))]))"
proof (intro conjI allI impI)
  assume "callback = VUndefined"
  then show "offSet st object callback =
      Ok () (st\<lparr>heap := (heap st)[b := Obj (propSet ps (KSym observedCallbacksSymbol) (VRegs []))]\<rparr>)"
    using node_define(1)[OF assms, of observedCallbacksSymbol "VRegs []"] by (simp add: offSet_def)
next
  fix f
  assume a: "callback = VFun f \<and> \<not> isArray (propGet ps (KSym observedCallbacksSymbol))"
  from node_get[OF assms, of "KSym observedCallbacksSymbol" object] obtain st1 where
    g: "js_get st object (KSym observedCallbacksSymbol) object =
          Ok (propGet ps (KSym observedCallbacksSymbol)) st1" and h: "heap st1 = heap st"
    by blast
  from a g have "offSet st object callback = Throw CallbackIsNotRegistered st1"
    by (simp add: offSet_def)
  with h show "\<exists>st1. offSet st object callback = Throw CallbackIsNotRegistered st1 \<and> heap st1 = heap st"
    by blast
next
  fix f regs
  assume a: "callback = VFun f \<and> propGet ps (KSym observedCallbacksSymbol) = VRegs regs"
  let ?sym = "KSym observedCallbacksSymbol"
  from node_get[OF assms, of ?sym object] a obtain st1 where
    g1: "js_get st object ?sym object = Ok (VRegs regs) st1" and h1: "heap st1 = heap st"
    by auto
  have n1: "node st1 object b ps" using assms h1 by (simp add: node_def)
  from node_get[OF n1, of ?sym object] a obtain st2 where
    g2: "js_get st1 object ?sym object = Ok (VRegs regs) st2" and h2: "heap st2 = heap st1"
    by auto
  have n2: "node st2 object b ps" using n1 h2 by (simp add: node_def)
  have f: "filter (\<lambda>r. VFun (cb r) \<noteq> VFun f) regs = filter (\<lambda>r. cb r \<noteq> f) regs"
    by simp
  have "offSet st object callback =
        Ok () (st2\<lparr>heap := (heap st2)[b := Obj (propSet ps ?sym (VRegs (filter (\<lambda>r. cb r \<noteq> f) regs)))]\<rparr>)"
    using a g1 g2 node_define(1)[OF n2, of observedCallbacksSymbol "VRegs (filter (\<lambda>r. cb r \<noteq> f) regs)"]
    by (simp add: offSet_def)
  then show "\<exists>st'. offSet st object callback = Ok () st' \<and>
               heap st' = (heap st)[b := Obj (propSet ps ?sym (VRegs (filter (\<lambda>r. cb r \<noteq> f) regs)))]"
    by (simp add: h1 h2)
qed

theorem offSet_removes_witness:
  "node exState 1 0 exProps \<and> node exState 2 2 [] \<and>
   offSet exState 1 VUndefined =
     Ok () (exState\<lparr>heap := (heap exState)[0 := Obj (propSet exProps (KSym observedCallbacksSymbol) (VRegs []))]\<rparr>) \<and>
   (\<exists>st1. offSet exState 2 (VFun 5) = Throw CallbackIsNotRegistered st1 \<and> heap st1 = heap exState) \<and>
   (\<exists>st'. offSet exState 1 (VFun 5) = Ok () st' \<and>
      heap st' = (heap exState)[0 := Obj (propSet exProps (KSym observedCallbacksSymbol)
        (VRegs [\<lparr>cb = 6, phase = After\<rparr>]))])"
proof -
  have n: "node exState 1 0 exProps" by code_simp
  have n2: "node exState 2 2 []" by code_simp
  have g: "propGet exProps (KSym observedCallbacksSymbol) = VRegs exRegistry" by code_simp
  have e: "\<not> isArray (propGet [] (KSym observedCallbacksSymbol))" by code_simp
  have fl: "filter (\<lambda>r. cb r \<noteq> 5) exRegistry = [\<lparr>cb = 6, phase = After\<rparr>]" by (simp add: exRegistry_def)
  from offSet_removes[OF n, of VUndefined] offSet_removes[OF n2, of "VFun 5"] offSet_removes[OF n, of "VFun 5"]
    n n2 g e fl
  show ?thesis by simp
qed

text \<open>
  Claim C9. A read of the key \<open>k\<close> through a wrapper \<open>p\<close> (a Proxy with target \<open>target\<close>, over the
  plain object with the properties \<open>ps\<close>) returns the value that the read of the target
  returns, which is the value \<open>propGet ps k\<close> of the underlying object; the store is not
  changed; and after the read of the target exactly one more call is recorded if
  \<^verbatim>\<open>onGet\<close> is a function, the call \<^verbatim>\<open>onGet(k, value, target, receiver)\<close>, and none
  otherwise. \<open>js_get\<close> does not take the table of callback results at all: what the hook
  returns is not an input of the read.
\<close>

theorem read_interception:
  assumes "cellAt st p = Some (Proxy target options)" and "node st p b ps"
  shows "\<exists>st1 st'. js_get st target k receiver = Ok (propGet ps k) st1 \<and>
           js_get st p k receiver = Ok (propGet ps k) st' \<and>
           heap st' = heap st \<and>
           trace st' = trace st1 @
             (case onGet options of
                Some (VFun f) \<Rightarrow> [Called f k (propGet ps k) (VRef target) (VRef receiver)]
              | _ \<Rightarrow> [])"
proof -
  from assms(1) have p: "p < length (heap st)" and c: "heap st ! p = Proxy target options"
    by (auto simp: cellAt_def split: if_splits)
  from assms(2) have r: "resolve (heap st) p = Some b" and o: "heap st ! b = Obj ps"
    by (simp_all add: node_def)
  from r p c have lt: "target < p" and rt: "resolve (heap st) target = Some b"
    by (auto simp: resolve_Proxy split: if_splits)
  from js_get_base[OF rt o, of k receiver] obtain st1 where
    g: "js_get st target k receiver = Ok (propGet ps k) st1" and h: "heap st1 = heap st"
    by blast
  define st' where "st' = (case onGet options of
      Some (VFun f) \<Rightarrow> log (Called f k (propGet ps k) (VRef target) (VRef receiver)) st1
    | _ \<Rightarrow> st1)"
  have cg: "callOnGet options k (propGet ps k) target receiver st1 = Ok () st'"
    by (auto simp: callOnGet_def st'_def split: option.splits val.splits)
  have "js_get st p k receiver = Ok (propGet ps k) st'"
    by (subst js_get.simps) (simp add: assms(1) lt g cg)
  moreover have "heap st' = heap st"
    using h by (auto simp: st'_def split: option.splits val.splits)
  moreover have "trace st' = trace st1 @
             (case onGet options of
                Some (VFun f) \<Rightarrow> [Called f k (propGet ps k) (VRef target) (VRef receiver)]
              | _ \<Rightarrow> [])"
    by (auto simp: st'_def split: option.splits val.splits)
  ultimately show ?thesis using g by blast
qed

theorem read_interception_witness:
  "cellAt exState 1 = Some (Proxy 0 exOptions) \<and> node exState 1 0 exProps \<and>
   js_get exState 1 (KStr ''test'') 1 =
     Ok (VNum 123) (exState\<lparr>trace := [Called 3 (KStr ''test'') (VNum 123) (VRef 0) (VRef 1)]\<rparr>)"
proof -
  have c: "cellAt exState 1 = Some (Proxy 0 exOptions)" by code_simp
  have n: "node exState 1 0 exProps" by code_simp
  have e: "js_get exState 1 (KStr ''test'') 1 =
     Ok (VNum 123) (exState\<lparr>trace := [Called 3 (KStr ''test'') (VNum 123) (VRef 0) (VRef 1)]\<rparr>)"
    by code_simp
  from read_interception[OF c n, of "KStr ''test''" 1] c n e show ?thesis by simp
qed

section \<open>Writes through a wrapper\<close>

lemma calls_append [simp]: "calls (xs @ ys) = calls xs @ calls ys"
  by (induction xs rule: calls.induct) simp_all

lemma calls_pipelineCalls [simp]: "calls (pipelineCalls F fs k v vb r) = fs"
  by (induction fs arbitrary: v) simp_all

lemma calls_notifications [simp]: "calls (notifications fs k v vb r) = fs"
  by (induction fs) (simp_all add: notifications_def)

lemma pipeline_cong:
  "(\<And>f. f \<in> set fs \<Longrightarrow> F' f = F f) \<Longrightarrow> pipeline F' fs k v vb r = pipeline F fs k v vb r"
  by (induction fs arbitrary: v) simp_all

lemma pipeline_snoc:
  "fs \<noteq> [] \<Longrightarrow>
   pipeline F fs k v vb r = F (last fs) k (pipeline F (butlast fs) k v vb r) vb (VRef r)"
proof -
  assume "fs \<noteq> []"
  then have "fs = butlast fs @ [last fs]" by simp
  then have "pipeline F fs k v vb r = pipeline F (butlast fs @ [last fs]) k v vb r" by simp
  then show ?thesis by (simp only: pipeline_append pipeline_simps)
qed

lemma js_get_written:
  assumes "cellAt st2 t = Some (Obj ps2)"
  shows "js_get (written F st2 t ps2 options regs k v1 vb receiver) t k t =
           Ok (pipeline F (beforeCallbacks options regs) k v1 vb receiver)
              (written F st2 t ps2 options regs k v1 vb receiver)"
proof -
  from cellAt_SomeD[OF assms] have
    "cellAt (written F st2 t ps2 options regs k v1 vb receiver) t =
       Some (Obj (propSet ps2 k (pipeline F (beforeCallbacks options regs) k v1 vb receiver)))"
    by (simp add: written_def cellAt_def)
  from js_get_plain[OF this, of k t] show ?thesis by (simp add: propGet_propSet)
qed


text \<open>
  Claim C4. In the same situation, with \<open>fs\<close> the global \<^verbatim>\<open>onBeforeSet\<close> (if a function)
  followed by the callbacks registered for the phase \<open>Before\<close>: the value then found under
  \<open>k\<close> on the target is the wrapped incoming value \<open>v1\<close> passed through all of \<open>fs\<close> from left
  to right, each result replacing the value; the \<open>i\<close>-th call after the wrapping is the call
  of \<open>fs ! i\<close> with, as its value argument, \<open>v1\<close> passed through the first \<open>i\<close> callbacks, and
  with the value that was under \<open>k\<close> before the write as its third argument; and when \<open>fs\<close> is
  not empty the stored value is whatever the last of them returns (\<open>VUndefined\<close> when it
  returns nothing).
\<close>

theorem before_pipeline:
  assumes "cellAt st p = Some (Proxy t options)"
    and "cellAt st t = Some (Obj ps)"
    and "propGet ps (KSym observedCallbacksSymbol) = VRegs regs"
    and "mayObserve n F st v options = Ok v1 st2"
    and "Suc (Suc n) \<le> N"
    and "fs = globalBefore options @ registered Before regs"
  shows "\<exists>st'. js_set N F st p k v receiver = Ok True st' \<and>
           js_get st' t k t = Ok (foldl (\<lambda>x f. F f k x (propGet ps k) (VRef receiver)) v1 fs) st' \<and>
           (\<forall>i < length fs.
              trace st' ! (length (trace st2) + i) =
                Called (fs ! i) k (foldl (\<lambda>x f. F f k x (propGet ps k) (VRef receiver)) v1 (take i fs))
                  (propGet ps k) (VRef receiver)) \<and>
           (fs \<noteq> [] \<longrightarrow>
              js_get st' t k t =
                Ok (F (last fs) k (foldl (\<lambda>x f. F f k x (propGet ps k) (VRef receiver)) v1 (butlast fs))
                      (propGet ps k) (VRef receiver)) st')"
proof -
  from write_through_wrapper[OF assms(1-5), of k receiver] obtain ps2 where
    t2: "cellAt st2 t = Some (Obj ps2)" and
    s: "js_set N F st p k v receiver =
          Ok True (written F st2 t ps2 options regs k v1 (propGet ps k) receiver)"
    by blast
  let ?st' = "written F st2 t ps2 options regs k v1 (propGet ps k) receiver"
  have fs: "beforeCallbacks options regs = fs" by (simp add: assms(6) beforeCallbacks_def)
  have g: "js_get ?st' t k t = Ok (pipeline F fs k v1 (propGet ps k) receiver) ?st'"
    using js_get_written[OF t2, of F options regs k v1 "propGet ps k" receiver] by (simp add: fs)
  have ev: "trace ?st' ! (length (trace st2) + i) =
      Called (fs ! i) k (pipeline F (take i fs) k v1 (propGet ps k) receiver) (propGet ps k) (VRef receiver)"
    if "i < length fs" for i
    using that by (simp add: written_def fs nth_append pipelineCalls_nth)
  from s g ev pipeline_snoc[of fs F k v1 "propGet ps k" receiver]
  show ?thesis unfolding pipeline_def by (intro exI[of _ ?st']) simp
qed

text \<open>
  Claim C5. In the same situation, with \<open>x\<close> the value that the callbacks of the before
  phase produce: after the write the store is the store \<open>st2\<close> with \<open>x\<close> under \<open>k\<close> on the target
  and nothing else changed; the calls of the after phase (the registrations of phase \<open>After\<close>,
  then the global \<^verbatim>\<open>onSet\<close>) all come after the store of \<open>x\<close> and all receive \<open>x\<close>; and a
  table \<open>F'\<close> of callback results that agrees with \<open>F\<close> on the callbacks of the before phase
  (and wraps the incoming value to the same result) leads to the same store, whatever
  the callbacks of the after phase return under \<open>F'\<close>.
\<close>

theorem phase_isolation:
  assumes "cellAt st p = Some (Proxy t options)"
    and "cellAt st t = Some (Obj ps)"
    and "propGet ps (KSym observedCallbacksSymbol) = VRegs regs"
    and "mayObserve n F st v options = Ok v1 st2"
    and "Suc (Suc n) \<le> N"
    and "x = pipeline F (beforeCallbacks options regs) k v1 (propGet ps k) receiver"
  shows "\<exists>st' ps2 pre. js_set N F st p k v receiver = Ok True st' \<and>
           cellAt st2 t = Some (Obj ps2) \<and>
           heap st' = (heap st2)[t := Obj (propSet ps2 k x)] \<and>
           trace st' = trace st2 @ pre @ [Written t k x] @
             map (\<lambda>f. Called f k x (propGet ps k) (VRef receiver)) (afterCallbacks options regs) \<and>
           calls pre = beforeCallbacks options regs \<and>
           (\<forall>F'. (\<forall>f \<in> set (beforeCallbacks options regs). F' f = F f) \<and>
                 mayObserve n F' st v options = Ok v1 st2 \<longrightarrow>
              (\<exists>st''. js_set N F' st p k v receiver = Ok True st'' \<and> heap st'' = heap st'))"
proof -
  from write_through_wrapper[OF assms(1-5), of k receiver] obtain ps2 where
    t2: "cellAt st2 t = Some (Obj ps2)" and
    s: "js_set N F st p k v receiver =
          Ok True (written F st2 t ps2 options regs k v1 (propGet ps k) receiver)"
    by blast
  let ?st' = "written F st2 t ps2 options regs k v1 (propGet ps k) receiver"
  let ?pre = "pipelineCalls F (beforeCallbacks options regs) k v1 (propGet ps k) receiver"
  have h: "heap ?st' = (heap st2)[t := Obj (propSet ps2 k x)]"
    by (simp add: written_def assms(6))
  have tr: "trace ?st' = trace st2 @ ?pre @ [Written t k x] @
             map (\<lambda>f. Called f k x (propGet ps k) (VRef receiver)) (afterCallbacks options regs)"
    by (simp add: written_def assms(6) notifications_def)
  have other: "\<exists>st''. js_set N F' st p k v receiver = Ok True st'' \<and> heap st'' = heap ?st'"
    if a: "\<forall>f \<in> set (beforeCallbacks options regs). F' f = F f"
      and w': "mayObserve n F' st v options = Ok v1 st2" for F'
  proof -
    from write_through_wrapper[OF assms(1-3) w' assms(5), of k receiver] t2 have
      s': "js_set N F' st p k v receiver =
          Ok True (written F' st2 t ps2 options regs k v1 (propGet ps k) receiver)"
      by auto
    have "pipeline F' (beforeCallbacks options regs) k v1 (propGet ps k) receiver = x"
      unfolding assms(6) using a by (intro pipeline_cong) simp
    then have "heap (written F' st2 t ps2 options regs k v1 (propGet ps k) receiver) = heap ?st'"
      by (simp add: written_def assms(6))
    with s' show ?thesis by blast
  qed
  from s t2 h tr other show ?thesis
    by (intro exI[of _ ?st'] exI[of _ ps2] exI[of _ ?pre]) simp
qed


lemma ex_wrapper: "cellAt exState 1 = Some (Proxy 0 exOptions)"
  by code_simp

lemma ex_target: "cellAt exState 0 = Some (Obj exProps)"
  by code_simp

lemma ex_registry: "propGet exProps (KSym observedCallbacksSymbol) = VRegs exRegistry"
  by code_simp

lemma ex_incoming: "mayObserve 1 G exState (VNum 123) exOptions = Ok (VNum 123) exState"
  by (simp add: numeral_eq_Suc)

lemma ex_callbacks:
  "globalBefore exOptions = [1]" "registered Before exRegistry = [5]"
  "registered After exRegistry = [6, 5]" "globalAfter exOptions = [2]"
  "beforeCallbacks exOptions exRegistry = [1, 5]" "afterCallbacks exOptions exRegistry = [6, 5, 2]"
  by (simp_all add: globalBefore_def globalAfter_def registered_def exOptions_def exRegistry_def
      beforeCallbacks_def afterCallbacks_def)

lemma ex_fuel: "Suc (Suc 1) \<le> 3"
  by simp

lemma ex_old: "propGet exProps (KStr ''test'') = VNum 123"
  by code_simp


theorem before_pipeline_witness:
  "cellAt exState 1 = Some (Proxy 0 exOptions) \<and> cellAt exState 0 = Some (Obj exProps) \<and>
   propGet exProps (KSym observedCallbacksSymbol) = VRegs exRegistry \<and>
   mayObserve 1 exF exState (VNum 123) exOptions = Ok (VNum 123) exState \<and>
   (\<exists>st'. js_set 3 exF exState 1 (KStr ''test'') (VNum 123) 1 = Ok True st' \<and>
      js_get st' 0 (KStr ''test'') 0 = Ok (VNum 247) st' \<and>
      trace st' ! 0 = Called 1 (KStr ''test'') (VNum 123) (VNum 123) (VRef 1) \<and>
      trace st' ! 1 = Called 5 (KStr ''test'') (VNum 246) (VNum 123) (VRef 1)) \<and>
   (\<exists>st'. js_set 3 (\<lambda>f k v vb r. VUndefined) exState 1 (KStr ''test'') (VNum 123) 1 = Ok True st' \<and>
      js_get st' 0 (KStr ''test'') 0 = Ok VUndefined st')"
proof -
  have fs: "[1, 5] = globalBefore exOptions @ registered Before exRegistry"
    by (simp add: ex_callbacks)
  have tr: "trace exState = []" by (simp add: exState_def)
  from before_pipeline[OF ex_wrapper ex_target ex_registry ex_incoming ex_fuel fs, of exF "KStr ''test''" 1]
  obtain st' where
    1: "js_set 3 exF exState 1 (KStr ''test'') (VNum 123) 1 = Ok True st'" and
    2: "js_get st' 0 (KStr ''test'') 0 =
          Ok (foldl (\<lambda>x f. exF f (KStr ''test'') x (propGet exProps (KStr ''test'')) (VRef 1)) (VNum 123) [1, 5]) st'" and
    3: "\<forall>i<length [1, 5::nat]. trace st' ! (length (trace exState) + i) =
          Called ([1, 5] ! i) (KStr ''test'')
            (foldl (\<lambda>x f. exF f (KStr ''test'') x (propGet exProps (KStr ''test'')) (VRef 1)) (VNum 123) (take i [1, 5]))
            (propGet exProps (KStr ''test'')) (VRef 1)"
    by (elim exE conjE)
  from before_pipeline[OF ex_wrapper ex_target ex_registry ex_incoming ex_fuel fs,
      of "\<lambda>f k v vb r. VUndefined" "KStr ''test''" 1]
  obtain st'' where
    4: "js_set 3 (\<lambda>f k v vb r. VUndefined) exState 1 (KStr ''test'') (VNum 123) 1 = Ok True st''" and
    5: "js_get st'' 0 (KStr ''test'') 0 =
          Ok (foldl (\<lambda>x f. VUndefined) (VNum 123) [1, 5::nat]) st''"
    by (elim exE conjE)
  from 3 have a: "trace st' ! 0 = Called 1 (KStr ''test'') (VNum 123) (VNum 123) (VRef 1)"
    by (simp add: tr ex_old)
  from 3 have b: "trace st' ! 1 = Called 5 (KStr ''test'') (VNum 246) (VNum 123) (VRef 1)"
    unfolding tr by (simp add: ex_old exF_def)
  from 2 have c: "js_get st' 0 (KStr ''test'') 0 = Ok (VNum 247) st'"
    by (simp add: ex_old exF_def)
  from 5 have d: "js_get st'' 0 (KStr ''test'') 0 = Ok VUndefined st''"
    by simp
  from 1 a b c have e: "\<exists>st'. js_set 3 exF exState 1 (KStr ''test'') (VNum 123) 1 = Ok True st' \<and>
      js_get st' 0 (KStr ''test'') 0 = Ok (VNum 247) st' \<and>
      trace st' ! 0 = Called 1 (KStr ''test'') (VNum 123) (VNum 123) (VRef 1) \<and>
      trace st' ! 1 = Called 5 (KStr ''test'') (VNum 246) (VNum 123) (VRef 1)"
    by (intro exI[of _ st'] conjI)
  from 4 d have g: "\<exists>st'. js_set 3 (\<lambda>f k v vb r. VUndefined) exState 1 (KStr ''test'') (VNum 123) 1 = Ok True st' \<and>
      js_get st' 0 (KStr ''test'') 0 = Ok VUndefined st'"
    by (intro exI[of _ st''] conjI)
  from ex_wrapper ex_target ex_registry ex_incoming[of exF] e g show ?thesis
    by (intro conjI)
qed

theorem phase_isolation_witness:
  "cellAt exState 1 = Some (Proxy 0 exOptions) \<and> cellAt exState 0 = Some (Obj exProps) \<and>
   propGet exProps (KSym observedCallbacksSymbol) = VRegs exRegistry \<and>
   mayObserve 1 exF exState (VNum 123) exOptions = Ok (VNum 123) exState \<and>
   mayObserve 1 exF' exState (VNum 123) exOptions = Ok (VNum 123) exState \<and>
   exF' 6 (KStr ''test'') (VNum 247) (VNum 123) (VRef 1) \<noteq> exF 6 (KStr ''test'') (VNum 247) (VNum 123) (VRef 1) \<and>
   (\<exists>st' st''. js_set 3 exF exState 1 (KStr ''test'') (VNum 123) 1 = Ok True st' \<and>
      heap st' = (heap exState)[0 := Obj (propSet exProps (KStr ''test'') (VNum 247))] \<and>
      js_set 3 exF' exState 1 (KStr ''test'') (VNum 123) 1 = Ok True st'' \<and>
      heap st'' = heap st')"
proof -
  have x: "VNum 247 = pipeline exF (beforeCallbacks exOptions exRegistry) (KStr ''test'') (VNum 123)
             (propGet exProps (KStr ''test'')) 1"
    by (simp add: ex_callbacks exF_def)
  have agree: "\<forall>f \<in> set (beforeCallbacks exOptions exRegistry). exF' f = exF f"
    by (auto simp: ex_callbacks exF'_def fun_eq_iff)
  have differ: "exF' 6 (KStr ''test'') (VNum 247) (VNum 123) (VRef 1) \<noteq>
                exF 6 (KStr ''test'') (VNum 247) (VNum 123) (VRef 1)"
    by (simp add: exF'_def exF_def)
  from phase_isolation[OF ex_wrapper ex_target ex_registry ex_incoming ex_fuel x]
  obtain st' ps2 where
    1: "js_set 3 exF exState 1 (KStr ''test'') (VNum 123) 1 = Ok True st'" and
    2: "cellAt exState 0 = Some (Obj ps2)" and
    3: "heap st' = (heap exState)[0 := Obj (propSet ps2 (KStr ''test'') (VNum 247))]" and
    4: "\<forall>F'. (\<forall>f \<in> set (beforeCallbacks exOptions exRegistry). F' f = exF f) \<and>
             mayObserve 1 F' exState (VNum 123) exOptions = Ok (VNum 123) exState \<longrightarrow>
          (\<exists>st''. js_set 3 F' exState 1 (KStr ''test'') (VNum 123) 1 = Ok True st'' \<and> heap st'' = heap st')"
    by blast
  from 2 ex_target have ps2: "ps2 = exProps" by simp
  from 4 agree ex_incoming[of exF'] obtain st'' where
    "js_set 3 exF' exState 1 (KStr ''test'') (VNum 123) 1 = Ok True st''" "heap st'' = heap st'"
    by blast
  with 1 3 ps2 differ ex_wrapper ex_target ex_registry ex_incoming[of exF] ex_incoming[of exF']
  show ?thesis by auto
qed


section \<open>Wrapping\<close>

lemma node_fun: "node st a b ps \<Longrightarrow> node st a b' ps' \<Longrightarrow> b' = b \<and> ps' = ps"
  by (auto simp: node_def)

lemma node_heap: "heap st' = heap st \<Longrightarrow> node st a b ps \<Longrightarrow> node st' a b ps"
  by (simp add: node_def)


lemma node_plain: "cellAt st a = Some (Obj ps) \<Longrightarrow> node st a a ps"
  using cellAt_SomeD[of st a "Obj ps"] by (simp add: node_def resolve_Obj)




text \<open>
  Claim C10. When \<^verbatim>\<open>observed\<close> is called on a plain object \<open>x\<close> and returns something else than
  \<open>x\<close>, then \<open>x\<close> carried no truthy marker before, what is returned is a new Proxy with the
  target \<open>x\<close>, and the marker is now \<^verbatim>\<open>true\<close> on \<open>x\<close> itself: \<open>isObserved\<close> of the plain object \<open>x\<close>
  returns \<open>True\<close>. A write on \<open>x\<close> itself still stores the value and calls nothing.
\<close>

theorem marker_on_raw:
  assumes "cellAt st x = Some (Obj ps)"
    and "observed n F st x opts = Ok w st1"
    and "w \<noteq> x"
  shows "\<not> truthy (propGet ps (KSym observedSymbol)) \<and>
         length (heap st) \<le> w \<and>
         cellAt st1 w = Some (Proxy x (spread defaultOptions opts)) \<and>
         (\<exists>ps1. cellAt st1 x = Some (Obj ps1) \<and> propGet ps1 (KSym observedSymbol) = VBool True) \<and>
         isObserved st1 x = Ok True st1 \<and>
         (\<forall>m G k v. js_set (Suc m) G st1 x k v x = Ok True (log (Written x k v) (setOwn st1 x k v)))"
proof -
  from assms(2) obtain m where n: "n = Suc m" by (cases n) auto
  from observed_SucD[OF assms(2)[unfolded n]] obtain u st1a keys u2 st3 b st4 where
    1: "initCallbackArray st x = Ok u st1a" and
    3: "observeKeys m F st1a x keys (spread defaultOptions opts) = Ok u2 st3" and
    4: "isObserved st3 x = Ok b st4" and
    r: "(if b then Ok x st4
            else andThen (newProxy st4 x (spread defaultOptions opts)) (\<lambda>proxy st5.
                 andThen (defineProp st5 x observedSymbol (VBool True)) (\<lambda>u3 st6. Ok proxy st6))) =
             Ok w st1"
    by blast
  have k: "keeps (heap st) (heap st3)"
    using initCallbackArray_keeps[OF 1] frame(5)[OF 3] by (rule keeps_trans)
  from keeps_cellAt_Obj[OF k assms(1)] obtain ps3 where
    c3: "cellAt st3 x = Some (Obj ps3)" and
    pres: "\<forall>y. truthy (propGet ps (KSym y)) \<longrightarrow> propGet ps3 (KSym y) = propGet ps (KSym y)"
    by blast
  from isObserved_OkD[OF 4] node_fun[OF node_plain[OF c3]] have
    h4: "heap st4 = heap st3" and b: "b = truthy (propGet ps3 (KSym observedSymbol))"
    by auto
  from r assms(3) have nb: "\<not> b" by (auto split: if_splits)
  have n4: "node st4 x x ps3" using node_heap[OF h4 node_plain[OF c3]] .
  let ?ps' = "propSet ps3 (KSym observedSymbol) (VBool True)"
  let ?o = "spread defaultOptions opts"
  from nb r newProxy_mark[OF n4, of ?o] have
    w: "w = length (heap st3)" and
    s: "st1 = st4\<lparr>heap := (heap st3 @ [Proxy x ?o])[x := Obj ?ps']\<rparr>"
    by (auto simp: h4)
  from cellAt_SomeD[OF c3] have x3: "x < length (heap st3)" by simp
  have "\<not> truthy (propGet ps (KSym observedSymbol))"
    using pres nb b by auto
  moreover have "length (heap st) \<le> w" unfolding w by (rule keeps_lengthD[OF k])
  moreover have "cellAt st1 w = Some (Proxy x ?o)"
    using x3 by (simp add: cellAt_def w s nth_append)
  moreover have cx: "cellAt st1 x = Some (Obj ?ps')"
    using x3 by (simp add: cellAt_def s)
  moreover have "propGet ?ps' (KSym observedSymbol) = VBool True"
    by (simp add: propGet_propSet)
  moreover have "isObserved st1 x = Ok True st1"
    by (simp add: isObserved_def js_get_plain[OF cx] propGet_propSet)
  moreover have "js_set (Suc m') G st1 x k' v' x = Ok True (log (Written x k' v') (setOwn st1 x k' v'))"
    for m' G k' v'
    using cx by simp
  ultimately show ?thesis by blast
qed

subsection \<open>Wrapping again what is wrapped all the way down\<close>














subsection \<open>Wrapping a node of a layered store\<close>


































lemma globalBefore_spread [simp]: "globalBefore (spread defaultOptions opts) = globalBefore opts"
  by (simp add: globalBefore_def spread_def defaultOptions_def split: option.splits)

lemma globalBefore_deep [simp]: "globalBefore (opts\<lparr>deep := x\<rparr>) = globalBefore opts"
  by (simp add: globalBefore_def)









lemma valOk_VRef [simp]: "valOk P (VRef c) = P c"
  by (simp add: valOk_def)

lemma valOk_VRegs [simp]: "valOk P (VRegs rs) = False"
  by (simp add: valOk_def)







lemma outcome_SomeD: "outcome r = Some (x, h) \<Longrightarrow> \<exists>st. r = Ok x st \<and> heap st = h"
  by (cases r) (simp_all add: outcome_def)


lemma ex_first_wrap: "observed 10 exF exRaw 0 defaultOptions = Ok 3 exWrapped"
  by code_simp

theorem marker_on_raw_witness:
  "cellAt exRaw 0 = Some (Obj [(KStr ''foo'', VStr ''X''), (KStr ''cool'', VRef 1)]) \<and>
   observed 10 exF exRaw 0 defaultOptions = Ok 3 exWrapped \<and> (3::nat) \<noteq> 0 \<and>
   cellAt exWrapped 3 = Some (Proxy 0 (spread defaultOptions defaultOptions)) \<and>
   (\<exists>ps1. cellAt exWrapped 0 = Some (Obj ps1) \<and> propGet ps1 (KSym observedSymbol) = VBool True) \<and>
   isObserved exWrapped 0 = Ok True exWrapped"
proof -
  have c: "cellAt exRaw 0 = Some (Obj [(KStr ''foo'', VStr ''X''), (KStr ''cool'', VRef 1)])"
    by code_simp
  have d: "(3::nat) \<noteq> 0" by simp
  from marker_on_raw[OF c ex_first_wrap d] c ex_first_wrap d show ?thesis by blast
qed




text \<open>
  Claim C2. The field \<^verbatim>\<open>deep\<close> is read nowhere in \<open>mayObserve\<close>, \<open>observed\<close> and \<open>setHandler\<close>. An
  empty object wrapped with \<^verbatim>\<open>{ deep: false }\<close>, and a second empty object written through
  the wrapper: the value then stored under the key is a new Proxy over the second object,
  and the second object carries the marker.
\<close>

theorem deep_false_still_wraps:
  "observed 2 exF exEmpty 0 exShallow = Ok 2 exEmptyWrapped \<and>
   deep exShallow = Some (VBool False) \<and>
   cellAt exEmptyWrapped 1 = Some (Obj []) \<and>
   js_set 5 exF exEmptyWrapped 2 (KStr ''a'') (VRef 1) 2 = Ok True exEmptyWritten \<and>
   js_get exEmptyWritten 0 (KStr ''a'') 0 = Ok (VRef 3) exEmptyWritten \<and>
   cellAt exEmptyWritten 3 = Some (Proxy 1 exShallow) \<and>
   isObserved exEmptyWritten 1 = Ok True exEmptyWritten"
  by code_simp

end
